theory Spec2Isabelle
  imports Main "HOL-Library.Word" "HOL-Library.Signed_Division"
begin

text \<open>
  A shallow embedding of four components of the node: the staged write batch with its
  cached, revertible variant (package db), the endorsement set (package endorsement),
  the block-sync worker (package blocksync) and the message dispatcher (package
  dispatcher). The first part translates the Go code, method by method; the second part
  states and proves properties of it. Mutexes are not modelled: every method runs under
  its lock from start to end. The snapshot counters and gauges of the metrics registry
  are left out; the dispatcher's request counter is part of its trace.
\<close>

section \<open>Staged write batch and cached batch (db/batch.go)\<close>

text \<open>
  Go strings and byte slices are both byte sequences; a HOL \<open>char\<close> is one byte, so
  both are modelled as \<open>string\<close>. A nil slice is the empty list.
\<close>

type_synonym bytes = string
type_synonym CacheHash = string
type_synonym int32 = "32 word"

text \<open>
  The error values of package db. \<open>ErrInvalidDB\<close> stands for the wrapped error
  (its cause); the message text is not modelled. \<open>RuntimePanic\<close> is Go's run-time
  panic on a slice bound or index out of range.
\<close>

datatype error = ErrInvalidDB | ErrAlreadyExist | ErrNotExist | RuntimePanic

record 'a writeInfo =
  writeType :: int32
  namespace :: string
  key :: bytes
  "value" :: bytes
  errorFormat :: string
  errorArgs :: 'a

definition Put :: int32 where "Put = 0"
definition Delete :: int32 where "Delete = 1"
definition PutIfNotExists :: int32 where "PutIfNotExists = 2"

record 'a baseKVStoreBatch =
  writeQueue :: "'a writeInfo list"

definition NewBatch :: "'a baseKVStoreBatch" where
  "NewBatch = \<lparr>writeQueue = []\<rparr>"

definition baseKVStoreBatch_batch ::
  "int32 \<Rightarrow> string \<Rightarrow> bytes \<Rightarrow> bytes \<Rightarrow> string \<Rightarrow> 'a \<Rightarrow> 'a baseKVStoreBatch \<Rightarrow> 'a baseKVStoreBatch" where
  "baseKVStoreBatch_batch op ns k v ef ea b =
     b\<lparr>writeQueue := writeQueue b @
        [\<lparr>writeType = op, namespace = ns, key = k, value = v, errorFormat = ef, errorArgs = ea\<rparr>]\<rparr>"

definition baseKVStoreBatch_Put ::
  "string \<Rightarrow> bytes \<Rightarrow> bytes \<Rightarrow> string \<Rightarrow> 'a \<Rightarrow> 'a baseKVStoreBatch \<Rightarrow> 'a baseKVStoreBatch" where
  "baseKVStoreBatch_Put ns k v ef ea b = baseKVStoreBatch_batch Put ns k v ef ea b"

text \<open>The method returns an error value next to the updated batch; \<open>None\<close> is Go's nil.\<close>

definition baseKVStoreBatch_PutIfNotExists ::
  "string \<Rightarrow> bytes \<Rightarrow> bytes \<Rightarrow> string \<Rightarrow> 'a \<Rightarrow> 'a baseKVStoreBatch
     \<Rightarrow> error option \<times> 'a baseKVStoreBatch" where
  "baseKVStoreBatch_PutIfNotExists ns k v ef ea b =
     (None, baseKVStoreBatch_batch PutIfNotExists ns k v ef ea b)"

definition baseKVStoreBatch_Delete ::
  "string \<Rightarrow> bytes \<Rightarrow> string \<Rightarrow> 'a \<Rightarrow> 'a baseKVStoreBatch \<Rightarrow> 'a baseKVStoreBatch" where
  "baseKVStoreBatch_Delete ns k ef ea b = baseKVStoreBatch_batch Delete ns k [] ef ea b"

definition baseKVStoreBatch_Size :: "'a baseKVStoreBatch \<Rightarrow> int" where
  "baseKVStoreBatch_Size b = int (length (writeQueue b))"

definition baseKVStoreBatch_Entry :: "int \<Rightarrow> 'a baseKVStoreBatch \<Rightarrow> error + 'a writeInfo" where
  "baseKVStoreBatch_Entry index b =
     (if index < 0 \<or> index \<ge> int (length (writeQueue b)) then Inl ErrInvalidDB
      else Inr (writeQueue b ! nat index))"

definition baseKVStoreBatch_Clear :: "'a baseKVStoreBatch \<Rightarrow> 'a baseKVStoreBatch" where
  "baseKVStoreBatch_Clear b = b\<lparr>writeQueue := []\<rparr>"

text \<open>
  Go's \<open>s[:n]\<close> and \<open>s[i]\<close>. Slice capacity is not modelled: a bound beyond the
  current length is treated as a panic (Go itself panics only beyond the capacity). The
  lemma \<open>Revert_valid\<close> below shows that no such bound arises on a batch built by
  the public operations, so on those batches the model and Go agree.
\<close>

definition slice_to :: "'b list \<Rightarrow> int \<Rightarrow> 'b list option" where
  "slice_to xs n = (if 0 \<le> n \<and> n \<le> int (length xs) then Some (take (nat n) xs) else None)"

definition index_at :: "'b list \<Rightarrow> int \<Rightarrow> 'b option" where
  "index_at xs i = (if 0 \<le> i \<and> i < int (length xs) then Some (xs ! nat i) else None)"

definition baseKVStoreBatch_truncate :: "int \<Rightarrow> 'a baseKVStoreBatch \<Rightarrow> 'a baseKVStoreBatch option" where
  "baseKVStoreBatch_truncate sz b =
     (case slice_to (writeQueue b) sz of None \<Rightarrow> None
      | Some q \<Rightarrow> Some (b\<lparr>writeQueue := q\<rparr>))"

subsection \<open>The key/value cache\<close>

text \<open>
  Modelled from the spec: the \<open>KVStoreCache\<close> implementation (\<open>NewKVCache\<close>,
  \<open>Read\<close>, \<open>Write\<close>, \<open>WriteIfNotExist\<close>, \<open>Evict\<close>, \<open>Clear\<close>, \<open>Clone\<close>) is not
  among the sources. The spec describes it as an in-memory last-write-wins overlay
  \<open>key \<rightarrow> value\<close> that can be deep-cloned; \<open>Get\<close> fails with NOT_FOUND when the key is
  absent and \<open>PutIfAbsent\<close> fails with ALREADY_EXISTS when the cache has an entry.
  These functions give the contents of a cache object after each method.
\<close>

type_synonym kvCache = "CacheHash \<rightharpoonup> bytes"

definition KVStoreCache_Read :: "CacheHash \<Rightarrow> kvCache \<Rightarrow> error + bytes" where
  "KVStoreCache_Read h c = (case c h of None \<Rightarrow> Inl ErrNotExist | Some v \<Rightarrow> Inr v)"

definition KVStoreCache_Write :: "CacheHash \<Rightarrow> bytes \<Rightarrow> kvCache \<Rightarrow> kvCache" where
  "KVStoreCache_Write h v c = c(h \<mapsto> v)"

definition KVStoreCache_WriteIfNotExist :: "CacheHash \<Rightarrow> bytes \<Rightarrow> kvCache \<Rightarrow> error option \<times> kvCache" where
  "KVStoreCache_WriteIfNotExist h v c =
     (case c h of Some _ \<Rightarrow> (Some ErrAlreadyExist, c) | None \<Rightarrow> (None, c(h \<mapsto> v)))"

definition KVStoreCache_Evict :: "CacheHash \<Rightarrow> kvCache \<Rightarrow> kvCache" where
  "KVStoreCache_Evict h c = c(h := None)"

definition KVStoreCache_Clear :: "kvCache \<Rightarrow> kvCache" where
  "KVStoreCache_Clear c = Map.empty"

definition KVStoreCache_Clone :: "kvCache \<Rightarrow> kvCache" where
  "KVStoreCache_Clone c = c"

subsection \<open>The cached batch\<close>

text \<open>
  The hash primitives of packages hash and byteutil are not among the sources; they are
  parameters of the model.
\<close>

record hashing =
  Hash160b :: "bytes \<Rightarrow> bytes"
  BytesToCacheHash :: "bytes \<Rightarrow> CacheHash"

text \<open>
  A \<open>KVStoreCache\<close> is an interface value holding a pointer: \<open>cb.Write(h, value)\<close>
  updates the object in place, and \<open>cb.KVStoreCache = cb.cacheShots[snapshot]\<close> copies
  the pointer, not the object. Cache objects therefore live in a store (\<open>heap\<close>) and
  the batch holds references into it; \<open>nextRef\<close> is the next unused reference. The
  embedded \<open>KVStoreBatch\<close> is never shared, so it is held by value.
\<close>

type_synonym ref = nat

record 'a cachedBatch =
  KVStoreBatch :: "'a baseKVStoreBatch"
  KVStoreCache :: ref
  tag :: int
  batchShots :: "int list"
  cacheShots :: "ref list"
  heap :: "ref \<Rightarrow> kvCache"
  nextRef :: ref

definition NewCachedBatch :: "'a cachedBatch" where
  "NewCachedBatch =
     \<lparr>KVStoreBatch = NewBatch, KVStoreCache = 0, tag = 0, batchShots = [], cacheShots = [],
      heap = (\<lambda>_. Map.empty), nextRef = 1\<rparr>"

definition cachedBatch_hash :: "hashing \<Rightarrow> string \<Rightarrow> bytes \<Rightarrow> CacheHash" where
  "cachedBatch_hash H ns k = BytesToCacheHash H (Hash160b H (Hash160b H ns @ k))"

definition cachedBatch_Put ::
  "hashing \<Rightarrow> string \<Rightarrow> bytes \<Rightarrow> bytes \<Rightarrow> string \<Rightarrow> 'a \<Rightarrow> 'a cachedBatch \<Rightarrow> 'a cachedBatch" where
  "cachedBatch_Put H ns k v ef ea cb =
     (let h = cachedBatch_hash H ns k;
          cb1 = cb\<lparr>heap := (heap cb)(KVStoreCache cb :=
                         KVStoreCache_Write h v (heap cb (KVStoreCache cb)))\<rparr>
      in cb1\<lparr>KVStoreBatch := baseKVStoreBatch_batch Put ns k v ef ea (KVStoreBatch cb1)\<rparr>)"

definition cachedBatch_PutIfNotExists ::
  "hashing \<Rightarrow> string \<Rightarrow> bytes \<Rightarrow> bytes \<Rightarrow> string \<Rightarrow> 'a \<Rightarrow> 'a cachedBatch
     \<Rightarrow> error option \<times> 'a cachedBatch" where
  "cachedBatch_PutIfNotExists H ns k v ef ea cb =
     (let h = cachedBatch_hash H ns k;
          (err, c) = KVStoreCache_WriteIfNotExist h v (heap cb (KVStoreCache cb));
          cb1 = cb\<lparr>heap := (heap cb)(KVStoreCache cb := c)\<rparr>
      in if err \<noteq> None then (err, cb1)
         else (None, cb1\<lparr>KVStoreBatch :=
                 baseKVStoreBatch_batch PutIfNotExists ns k v ef ea (KVStoreBatch cb1)\<rparr>))"

definition cachedBatch_Delete ::
  "hashing \<Rightarrow> string \<Rightarrow> bytes \<Rightarrow> string \<Rightarrow> 'a \<Rightarrow> 'a cachedBatch \<Rightarrow> 'a cachedBatch" where
  "cachedBatch_Delete H ns k ef ea cb =
     (let h = cachedBatch_hash H ns k;
          cb1 = cb\<lparr>heap := (heap cb)(KVStoreCache cb :=
                         KVStoreCache_Evict h (heap cb (KVStoreCache cb)))\<rparr>
      in cb1\<lparr>KVStoreBatch := baseKVStoreBatch_batch Delete ns k [] ef ea (KVStoreBatch cb1)\<rparr>)"

text \<open>\<open>Clear\<close> and \<open>ClearAndUnlock\<close> have the same body apart from the locking.\<close>

definition cachedBatch_Clear :: "'a cachedBatch \<Rightarrow> 'a cachedBatch" where
  "cachedBatch_Clear cb =
     cb\<lparr>heap := (heap cb)(KVStoreCache cb := KVStoreCache_Clear (heap cb (KVStoreCache cb))),
        KVStoreBatch := baseKVStoreBatch_Clear (KVStoreBatch cb),
        tag := 0, batchShots := [], cacheShots := []\<rparr>"

definition cachedBatch_ClearAndUnlock :: "'a cachedBatch \<Rightarrow> 'a cachedBatch" where
  "cachedBatch_ClearAndUnlock cb = cachedBatch_Clear cb"

definition cachedBatch_Get :: "hashing \<Rightarrow> string \<Rightarrow> bytes \<Rightarrow> 'a cachedBatch \<Rightarrow> error + bytes" where
  "cachedBatch_Get H ns k cb =
     KVStoreCache_Read (cachedBatch_hash H ns k) (heap cb (KVStoreCache cb))"

text \<open>
  \<open>Snapshot\<close> returns the tag read at the return statement; the deferred increment
  runs afterwards. \<open>Clone\<close> allocates a new cache object.
\<close>

definition cachedBatch_Snapshot :: "'a cachedBatch \<Rightarrow> int \<times> 'a cachedBatch" where
  "cachedBatch_Snapshot cb =
     (let cb1 = cb\<lparr>batchShots := batchShots cb @ [baseKVStoreBatch_Size (KVStoreBatch cb)]\<rparr>;
          r = nextRef cb1;
          cb2 = cb1\<lparr>heap := (heap cb1)(r := KVStoreCache_Clone (heap cb1 (KVStoreCache cb1))),
                    nextRef := Suc r\<rparr>;
          cb3 = cb2\<lparr>cacheShots := cacheShots cb2 @ [r]\<rparr>
      in (tag cb3, cb3\<lparr>tag := tag cb3 + 1\<rparr>))"

text \<open>
  \<open>Revert\<close>, statement by statement; a panic leaves the batch as the statements before
  it made it. The transient \<open>cb.KVStoreCache = nil\<close> is overwritten by the next
  statement and is not modelled.
\<close>

definition cachedBatch_Revert :: "int \<Rightarrow> 'a cachedBatch \<Rightarrow> error option \<times> 'a cachedBatch" where
  "cachedBatch_Revert snapshot cb =
     (if snapshot < 0 \<or> snapshot \<ge> tag cb then (Some ErrInvalidDB, cb)
      else
        let cb1 = cb\<lparr>tag := snapshot + 1\<rparr> in
        (case slice_to (batchShots cb1) (tag cb1) of
           None \<Rightarrow> (Some RuntimePanic, cb1)
         | Some bs \<Rightarrow>
            (let cb2 = cb1\<lparr>batchShots := bs\<rparr> in
             (case index_at (batchShots cb2) snapshot of
                None \<Rightarrow> (Some RuntimePanic, cb2)
              | Some sz \<Rightarrow>
                 (case baseKVStoreBatch_truncate sz (KVStoreBatch cb2) of
                    None \<Rightarrow> (Some RuntimePanic, cb2)
                  | Some b \<Rightarrow>
                     (let cb3 = cb2\<lparr>KVStoreBatch := b\<rparr> in
                      (case slice_to (cacheShots cb3) (tag cb3) of
                         None \<Rightarrow> (Some RuntimePanic, cb3)
                       | Some cs \<Rightarrow>
                          (let cb4 = cb3\<lparr>cacheShots := cs\<rparr> in
                           (case index_at (cacheShots cb4) snapshot of
                              None \<Rightarrow> (Some RuntimePanic, cb4)
                            | Some c \<Rightarrow> (None, cb4\<lparr>KVStoreCache := c\<rparr>))))))))))"

subsection \<open>Sequences of operations on a cached batch\<close>

text \<open>
  A caller's use of a batch is a list of method calls. A call that returns an error
  leaves the caller with the batch as the method left it, and the caller goes on.
\<close>

datatype 'a batchOp =
    OpPut string bytes bytes string 'a
  | OpPutIfNotExists string bytes bytes string 'a
  | OpDelete string bytes string 'a
  | OpSnapshot
  | OpRevert int
  | OpClear

fun exec :: "hashing \<Rightarrow> 'a batchOp \<Rightarrow> 'a cachedBatch \<Rightarrow> 'a cachedBatch" where
  "exec H (OpPut ns k v ef ea) cb = cachedBatch_Put H ns k v ef ea cb"
| "exec H (OpPutIfNotExists ns k v ef ea) cb = snd (cachedBatch_PutIfNotExists H ns k v ef ea cb)"
| "exec H (OpDelete ns k ef ea) cb = cachedBatch_Delete H ns k ef ea cb"
| "exec H OpSnapshot cb = snd (cachedBatch_Snapshot cb)"
| "exec H (OpRevert t) cb = snd (cachedBatch_Revert t cb)"
| "exec H OpClear cb = cachedBatch_Clear cb"

fun run :: "hashing \<Rightarrow> 'a batchOp list \<Rightarrow> 'a cachedBatch \<Rightarrow> 'a cachedBatch" where
  "run H [] cb = cb"
| "run H (x # xs) cb = run H xs (exec H x cb)"

text \<open>
  The operations that may stand between a snapshot with token \<open>t\<close> and the revert to
  it in the round-trip property: every write and snapshot, and reverts whose token is
  not in \<open>0..t\<close>.
\<close>

fun keeps_snapshot :: "int \<Rightarrow> 'a batchOp \<Rightarrow> bool" where
  "keeps_snapshot t (OpRevert r) = (r < 0 \<or> t < r)"
| "keeps_snapshot t OpClear = False"
| "keeps_snapshot t _ = True"

section \<open>Endorsement set (endorsement/endorsementset.go)\<close>

text \<open>
  Modelled from the spec: the \<open>Endorsement\<close> type and its consensus vote are not among
  the sources. The spec lists the fields
  \<open>{voter, voterPubKey, height, round, blockHash, topic, decision, signature}\<close> with
  \<open>topic \<in> {PROPOSAL, LOCK, COMMIT}\<close>. Signature verification is a parameter.
\<close>

datatype ConsensusVoteTopic = PROPOSAL | LOCK | COMMIT

record ConsensusVote =
  BlkHash :: bytes
  Height :: "64 word"
  Round :: "32 word"
  Topic :: ConsensusVoteTopic

record Endorsement =
  ConsensusVote :: ConsensusVote
  endorser :: string
  endorserPubKey :: bytes
  decision :: bool
  signature :: bytes

definition Endorser :: "Endorsement \<Rightarrow> string" where
  "Endorser en = endorser en"

datatype endorsementError = ErrExpiredEndorsement | ErrInvalidHash | ErrInvalidEndorsement

record Set =
  blkHash :: bytes
  round :: "32 word"
  endorsements :: "Endorsement list"

definition NewSet :: "bytes \<Rightarrow> Set" where
  "NewSet h = \<lparr>blkHash = h, round = 0, endorsements = []\<rparr>"

text \<open>
  The loop of \<open>AddEndorsement\<close> from index \<open>i\<close> on, with the append that follows it.
\<close>

function AddEndorsement_loop :: "Endorsement \<Rightarrow> nat \<Rightarrow> Set \<Rightarrow> endorsementError option \<times> Set" where
  "AddEndorsement_loop en i s =
     (if i < length (endorsements s) then
        (let e = endorsements s ! i in
         if Endorser e \<noteq> Endorser en then AddEndorsement_loop en (Suc i) s
         else if Topic (ConsensusVote e) \<noteq> Topic (ConsensusVote en) then AddEndorsement_loop en (Suc i) s
         else if Round (ConsensusVote e) < Round (ConsensusVote en)
           then (None, s\<lparr>endorsements := (endorsements s)[i := en]\<rparr>)
         else (Some ErrExpiredEndorsement, s))
      else (None, s\<lparr>endorsements := endorsements s @ [en]\<rparr>))"
  by pat_completeness auto
termination
  by (relation "measure (\<lambda>(en, i, s). length (endorsements s) - i)") auto

declare AddEndorsement_loop.simps [simp del]

definition AddEndorsement :: "(Endorsement \<Rightarrow> bool) \<Rightarrow> Endorsement \<Rightarrow> Set \<Rightarrow> endorsementError option \<times> Set" where
  "AddEndorsement VerifySignature en s =
     (if BlkHash (ConsensusVote en) \<noteq> blkHash s then (Some ErrInvalidHash, s)
      else if \<not> VerifySignature en then (Some ErrInvalidEndorsement, s)
      else AddEndorsement_loop en 0 s)"

definition SetRound :: "32 word \<Rightarrow> Set \<Rightarrow> Set" where
  "SetRound r s = s\<lparr>round := r\<rparr>"

text \<open>
  A history of \<open>AddEndorsement\<close> calls: the set after the calls, and for each call the
  endorsement with the error it returned.
\<close>

fun addAll :: "(Endorsement \<Rightarrow> bool) \<Rightarrow> Endorsement list \<Rightarrow> Set
    \<Rightarrow> Set \<times> (Endorsement \<times> endorsementError option) list" where
  "addAll V [] s = (s, [])"
| "addAll V (en # ens) s =
     (let (err, s1) = AddEndorsement V en s;
          (s2, log) = addAll V ens s1
      in (s2, (en, err) # log))"

definition samePair :: "string \<Rightarrow> ConsensusVoteTopic \<Rightarrow> Endorsement \<Rightarrow> bool" where
  "samePair a tp e = (Endorser e = a \<and> Topic (ConsensusVote e) = tp)"

definition retained :: "string \<Rightarrow> ConsensusVoteTopic \<Rightarrow> Set \<Rightarrow> Endorsement list" where
  "retained a tp s = filter (samePair a tp) (endorsements s)"

definition addedRounds :: "string \<Rightarrow> ConsensusVoteTopic
    \<Rightarrow> (Endorsement \<times> endorsementError option) list \<Rightarrow> 32 word list" where
  "addedRounds a tp log =
     map (\<lambda>(en, err). Round (ConsensusVote en)) (filter (\<lambda>(en, err). samePair a tp en \<and> err = None) log)"

section \<open>Block-sync worker (blocksync/worker.go)\<close>

type_synonym Addr = string

record syncBlocksInterval =
  Start :: "64 word"
  End :: "64 word"

text \<open>The protobuf message \<open>pb.BlockSync{Start, End}\<close>.\<close>

datatype BlockSync = BlockSync "64 word" "64 word"

text \<open>
  What a tick does to the outside: unicast requests and log lines, in program order. A
  run-time panic (an index out of range) ends the tick and is recorded last.
\<close>

datatype logLevel = Debug | Info | Warn | Error

datatype syncEffect = Unicast Addr BlockSync | SyncLog logLevel string | SyncPanic

text \<open>
  The worker's collaborators are not among the sources and are parameters: the peer list
  the neighbors handler returns at this tick, the intervals the block buffer computes for
  a target height, and whether the unicast handler returns an error.
\<close>

record syncEnv =
  neighborsHandler :: "Addr list"
  GetBlocksIntervalsToSync :: "64 word \<Rightarrow> syncBlocksInterval list"
  unicastHandler :: "Addr \<Rightarrow> BlockSync \<Rightarrow> bool"

record syncWorker =
  chainID :: "32 word"
  targetHeight :: "64 word"
  rrIdx :: int

definition newSyncWorker :: "32 word \<Rightarrow> syncWorker" where
  "newSyncWorker c = \<lparr>chainID = c, targetHeight = 0, rrIdx = 0\<rparr>"

definition SetTargetHeight :: "64 word \<Rightarrow> syncWorker \<Rightarrow> syncWorker" where
  "SetTargetHeight h w = (if h > targetHeight w then w\<lparr>targetHeight := h\<rparr> else w)"

text \<open>
  The loop over the intervals. Go's \<open>%\<close> on \<open>int\<close> truncates towards zero
  (\<open>smod\<close>); the peer list is not empty when the loop runs.
\<close>

fun Sync_loop :: "syncEnv \<Rightarrow> Addr list \<Rightarrow> syncBlocksInterval list \<Rightarrow> syncWorker
    \<Rightarrow> syncWorker \<times> syncEffect list" where
  "Sync_loop E peers [] w = (w, [])"
| "Sync_loop E peers (interval # rest) w =
     (let w1 = w\<lparr>rrIdx := rrIdx w smod int (length peers)\<rparr> in
      case index_at peers (rrIdx w1) of
        None \<Rightarrow> (w1, [SyncPanic])
      | Some p \<Rightarrow>
         (let req = BlockSync (Start interval) (End interval);
              out = Unicast p req #
                    (if unicastHandler E p req then [SyncLog Warn ''Failed to sync block.''] else []);
              w2 = w1\<lparr>rrIdx := rrIdx w1 + 1\<rparr>;
              (w3, more) = Sync_loop E peers rest w2
          in (w3, out @ more)))"

definition Sync :: "syncEnv \<Rightarrow> syncWorker \<Rightarrow> syncWorker \<times> syncEffect list" where
  "Sync E w =
     (let peers = neighborsHandler E in
      if length peers = 0 then (w, [SyncLog Debug ''No peer exist to sync with.''])
      else
        let intervals = GetBlocksIntervalsToSync E (targetHeight w);
            info = (if intervals \<noteq> [] then [SyncLog Info ''block sync intervals.''] else []);
            (w1, out) = Sync_loop E peers intervals w
        in (w1, info @ out))"

text \<open>The unicast requests among the effects of a tick, in the order they were sent.\<close>

fun unicasts :: "syncEffect list \<Rightarrow> (Addr \<times> BlockSync) list" where
  "unicasts [] = []"
| "unicasts (Unicast p r # es) = (p, r) # unicasts es"
| "unicasts (_ # es) = unicasts es"

text \<open>
  The life of a worker: created by \<open>newSyncWorker\<close>, then any number of ticks and
  target-height updates, each tick in its own environment.
\<close>

datatype workerCall = Tick syncEnv | Target "64 word"

fun workerRun :: "workerCall list \<Rightarrow> syncWorker \<Rightarrow> syncWorker" where
  "workerRun [] w = w"
| "workerRun (Tick E # cs) w = workerRun cs (fst (Sync E w))"
| "workerRun (Target h # cs) w = workerRun cs (SetTargetHeight h w)"

section \<open>Dispatcher (dispatcher/dispatcher.go)\<close>

text \<open>The payloads of the protobuf messages are opaque to the dispatcher.\<close>

type_synonym ActionPb = bytes
type_synonym BlockPb = bytes
type_synonym ConsensusPb = bytes

text \<open>A \<open>proto.Message\<close> by its dynamic type; \<open>OtherMsg\<close> is any other message.\<close>

datatype message =
    ActionPbMsg ActionPb
  | BlockPbMsg BlockPb
  | BlockSyncMsg BlockSync
  | BlockContainerMsg BlockPb
  | ConsensusPbMsg ConsensusPb
  | OtherMsg bytes

text \<open>
  Modelled from the spec: the message type codes of package proto and
  \<open>GetTypeFromProtoMsg\<close> are not among the sources. The spec says that the envelope
  type is discriminated by an integer message type code and that the dispatcher depends
  on \<open>GetTypeFromProtoMsg(msg) \<rightarrow> (uint32, error)\<close>. The codes are kept symbolic (Go's
  \<open>switch\<close> requires its case constants to differ); \<open>MsgZeroType\<close> is the code
  returned together with an error, assumed to be none of the named ones.
\<close>

datatype msgType =
    MsgActionType | MsgBlockProtoMsgType | MsgBlockSyncReqType | MsgBlockSyncDataType
  | MsgConsensusType | MsgZeroType

fun GetTypeFromProtoMsg :: "message \<Rightarrow> msgType \<times> bool" where
  "GetTypeFromProtoMsg (ActionPbMsg _) = (MsgActionType, False)"
| "GetTypeFromProtoMsg (BlockPbMsg _) = (MsgBlockProtoMsgType, False)"
| "GetTypeFromProtoMsg (BlockSyncMsg _) = (MsgBlockSyncReqType, False)"
| "GetTypeFromProtoMsg (BlockContainerMsg _) = (MsgBlockSyncDataType, False)"
| "GetTypeFromProtoMsg (ConsensusPbMsg _) = (MsgConsensusType, False)"
| "GetTypeFromProtoMsg (OtherMsg _) = (MsgZeroType, True)"

text \<open>
  The events on the channel: \<open>*actionMsg\<close>, \<open>*blockMsg\<close> and \<open>*blockSyncMsg\<close> with
  their fields in declaration order.
\<close>

datatype event =
    actionMsg "32 word" ActionPb
  | blockMsg "32 word" BlockPb msgType
  | blockSyncMsg "32 word" string BlockSync

text \<open>
  A subscriber is known to the dispatcher by its five handlers. A call is recorded with
  the identity of the subscriber; \<open>fails\<close> tells whether the handler returns an error.
\<close>

datatype call =
    HandleAction ActionPb
  | HandleBlock BlockPb
  | HandleBlockSync BlockPb
  | HandleSyncRequest string BlockSync
  | HandleConsensusMsg ConsensusPb

record Subscriber =
  subscriberId :: nat
  fails :: "call \<Rightarrow> bool"

text \<open>What the dispatcher does to the outside, in program order.\<close>

datatype observation =
    Invoke nat call
  | Logged logLevel string
  | RequestMtc string string
  | Panicked

text \<open>
  \<open>enqueueEvent\<close> starts a goroutine that first compares the channel's length with its
  capacity and then sends. A started goroutine is at one of these two points.
\<close>

datatype senderPc = AtCheck | AtSend

text \<open>
  The dispatcher. \<open>eventChan\<close> is the buffered channel's content, oldest first, and
  \<open>eventChanCap\<close> its capacity \<open>cfg.Dispatcher.EventChanSize\<close>. \<open>quit\<close> is true once
  the quit channel is closed, \<open>handlerRunning\<close> while the \<open>newsHandler\<close> goroutine
  runs, \<open>senders\<close> are the goroutines started by \<open>enqueueEvent\<close> that have not
  finished, and \<open>trace\<close> collects the observations. The audit counters are Go
  \<open>int\<close>s, modelled unbounded.
\<close>

record IotxDispatcher =
  started :: "32 word"
  shutdown :: "32 word"
  eventChan :: "event list"
  eventChanCap :: nat
  eventAudit :: "msgType \<rightharpoonup> int"
  quit :: bool
  handlerRunning :: bool
  subscribers :: "32 word \<rightharpoonup> Subscriber"
  senders :: "(senderPc \<times> event) list"
  trace :: "observation list"

definition NewDispatcher :: "nat \<Rightarrow> IotxDispatcher" where
  "NewDispatcher EventChanSize =
     \<lparr>started = 0, shutdown = 0, eventChan = [], eventChanCap = EventChanSize,
      eventAudit = Map.empty, quit = False, handlerRunning = False,
      subscribers = Map.empty, senders = [], trace = []\<rparr>"

definition observe :: "observation \<Rightarrow> IotxDispatcher \<Rightarrow> IotxDispatcher" where
  "observe x d = d\<lparr>trace := trace d @ [x]\<rparr>"

definition AddSubscriber :: "32 word \<Rightarrow> Subscriber \<Rightarrow> IotxDispatcher \<Rightarrow> IotxDispatcher" where
  "AddSubscriber c sub d = d\<lparr>subscribers := (subscribers d)(c \<mapsto> sub)\<rparr>"

text \<open>
  The dispatcher's \<open>Start\<close> and \<open>Stop\<close> (the names carry the receiver, since
  \<open>Start\<close> is a field of the sync interval); the result is true when \<open>Start\<close>
  returns its error.
\<close>

definition IotxDispatcher_Start :: "IotxDispatcher \<Rightarrow> bool \<times> IotxDispatcher" where
  "IotxDispatcher_Start d =
     (let d1 = d\<lparr>started := started d + 1\<rparr> in
      if started d1 \<noteq> 1 then (True, d1)
      else (False, (observe (Logged Info ''Starting dispatcher.'') d1)\<lparr>handlerRunning := True\<rparr>))"

text \<open>
  \<open>Stop\<close> up to its wait for the handler goroutine; the handler's exit is the step
  \<open>newsHandler_quit\<close>.
\<close>

definition IotxDispatcher_Stop :: "IotxDispatcher \<Rightarrow> IotxDispatcher" where
  "IotxDispatcher_Stop d =
     (let d1 = d\<lparr>shutdown := shutdown d + 1\<rparr> in
      if shutdown d1 \<noteq> 1
      then observe (Logged Warn ''Dispatcher already in the process of shutting down.'') d1
      else (observe (Logged Info ''Dispatcher is shutting down.'') d1)\<lparr>quit := True\<rparr>)"

definition updateEventAudit :: "msgType \<Rightarrow> IotxDispatcher \<Rightarrow> IotxDispatcher" where
  "updateEventAudit t d =
     d\<lparr>eventAudit := (eventAudit d)(t \<mapsto> (case eventAudit d t of None \<Rightarrow> 0 | Some n \<Rightarrow> n) + 1)\<rparr>"

definition handleActionMsg :: "32 word \<Rightarrow> ActionPb \<Rightarrow> IotxDispatcher \<Rightarrow> IotxDispatcher" where
  "handleActionMsg c a d =
     (let d1 = updateEventAudit MsgActionType d in
      case subscribers d1 c of
        Some subscriber \<Rightarrow>
          (let d2 = observe (Invoke (subscriberId subscriber) (HandleAction a)) d1 in
           if fails subscriber (HandleAction a)
           then observe (Logged Debug ''Handle action request error.'')
                  (observe (RequestMtc ''AddAction'' ''false'') d2)
           else d2)
      | None \<Rightarrow> observe (Logged Info ''No subscriber specified in the dispatcher.'') d1)"

definition handleBlockMsg :: "32 word \<Rightarrow> BlockPb \<Rightarrow> msgType \<Rightarrow> IotxDispatcher \<Rightarrow> IotxDispatcher" where
  "handleBlockMsg c b blkType d =
     (case subscribers d c of
        Some subscriber \<Rightarrow>
          (if blkType = MsgBlockProtoMsgType then
             (let d1 = updateEventAudit MsgBlockProtoMsgType d;
                  d2 = observe (Invoke (subscriberId subscriber) (HandleBlock b)) d1 in
              if fails subscriber (HandleBlock b)
              then observe (Logged Error ''Fail to handle the block.'') d2 else d2)
           else if blkType = MsgBlockSyncDataType then
             (let d1 = updateEventAudit MsgBlockSyncDataType d;
                  d2 = observe (Invoke (subscriberId subscriber) (HandleBlockSync b)) d1 in
              if fails subscriber (HandleBlockSync b)
              then observe (Logged Error ''Fail to sync the block.'') d2 else d2)
           else d)
      | None \<Rightarrow> observe (Logged Info ''No subscriber specified in the dispatcher.'') d)"

definition handleBlockSyncMsg :: "32 word \<Rightarrow> string \<Rightarrow> BlockSync \<Rightarrow> IotxDispatcher \<Rightarrow> IotxDispatcher" where
  "handleBlockSyncMsg c sender sync d =
     (let d0 = observe (Logged Info ''Receive blockSyncMsg.'') d;
          d1 = updateEventAudit MsgBlockSyncReqType d0 in
      case subscribers d1 c of
        Some subscriber \<Rightarrow>
          (let d2 = observe (Invoke (subscriberId subscriber) (HandleSyncRequest sender sync)) d1 in
           if fails subscriber (HandleSyncRequest sender sync)
           then observe (Logged Error ''Failed to handle sync request.'') d2 else d2)
      | None \<Rightarrow> observe (Logged Info ''No subscriber specified in the dispatcher.'') d1)"

text \<open>The body of the \<open>newsHandler\<close> loop for one received event.\<close>

fun newsHandler_dispatch :: "event \<Rightarrow> IotxDispatcher \<Rightarrow> IotxDispatcher" where
  "newsHandler_dispatch (actionMsg c a) d = handleActionMsg c a d"
| "newsHandler_dispatch (blockMsg c b t) d = handleBlockMsg c b t d"
| "newsHandler_dispatch (blockSyncMsg c sender sync) d = handleBlockSyncMsg c sender sync d"

text \<open>\<open>enqueueEvent\<close> itself only starts the goroutine and returns.\<close>

definition enqueueEvent :: "event \<Rightarrow> IotxDispatcher \<Rightarrow> IotxDispatcher" where
  "enqueueEvent ev d = d\<lparr>senders := senders d @ [(AtCheck, ev)]\<rparr>"

text \<open>
  The \<open>dispatch\<close> functions. A failed type assertion panics; it cannot fail when the
  type code comes from \<open>GetTypeFromProtoMsg\<close>.
\<close>

definition dispatchAction :: "32 word \<Rightarrow> message \<Rightarrow> IotxDispatcher \<Rightarrow> IotxDispatcher" where
  "dispatchAction c msg d =
     (if shutdown d \<noteq> 0 then d
      else case msg of ActionPbMsg a \<Rightarrow> enqueueEvent (actionMsg c a) d
           | _ \<Rightarrow> observe Panicked d)"

definition dispatchBlockCommit :: "32 word \<Rightarrow> message \<Rightarrow> IotxDispatcher \<Rightarrow> IotxDispatcher" where
  "dispatchBlockCommit c msg d =
     (if shutdown d \<noteq> 0 then d
      else case msg of BlockPbMsg b \<Rightarrow> enqueueEvent (blockMsg c b MsgBlockProtoMsgType) d
           | _ \<Rightarrow> observe Panicked d)"

definition dispatchBlockSyncReq :: "32 word \<Rightarrow> string \<Rightarrow> message \<Rightarrow> IotxDispatcher \<Rightarrow> IotxDispatcher" where
  "dispatchBlockSyncReq c sender msg d =
     (if shutdown d \<noteq> 0 then d
      else case msg of BlockSyncMsg sync \<Rightarrow> enqueueEvent (blockSyncMsg c sender sync) d
           | _ \<Rightarrow> observe Panicked d)"

definition dispatchBlockSyncData :: "32 word \<Rightarrow> message \<Rightarrow> IotxDispatcher \<Rightarrow> IotxDispatcher" where
  "dispatchBlockSyncData c msg d =
     (if shutdown d \<noteq> 0 then d
      else case msg of BlockContainerMsg b \<Rightarrow> enqueueEvent (blockMsg c b MsgBlockSyncDataType) d
           | _ \<Rightarrow> observe Panicked d)"

definition HandleBroadcast :: "32 word \<Rightarrow> message \<Rightarrow> IotxDispatcher \<Rightarrow> IotxDispatcher" where
  "HandleBroadcast c msg d =
     (let (msgType, err) = GetTypeFromProtoMsg msg;
          d1 = (if err then observe (Logged Warn ''Unexpected message handled by HandleBroadcast.'') d
                else d)
      in case subscribers d1 c of
           None \<Rightarrow> observe (Logged Warn ''chainID has not been registered in dispatcher.'') d1
         | Some subscriber \<Rightarrow>
            (if msgType = MsgConsensusType then
               (case msg of
                  ConsensusPbMsg m \<Rightarrow>
                    (let d2 = observe (Invoke (subscriberId subscriber) (HandleConsensusMsg m)) d1 in
                     if fails subscriber (HandleConsensusMsg m)
                     then observe (Logged Error ''Failed to handle block propose.'') d2 else d2)
                | _ \<Rightarrow> observe Panicked d1)
             else if msgType = MsgActionType then dispatchAction c msg d1
             else if msgType = MsgBlockProtoMsgType then dispatchBlockCommit c msg d1
             else observe (Logged Warn ''Unexpected msgType handled by HandleBroadcast.'') d1))"

definition HandleTell :: "32 word \<Rightarrow> Addr \<Rightarrow> message \<Rightarrow> IotxDispatcher \<Rightarrow> IotxDispatcher" where
  "HandleTell c sender msg d =
     (let (msgType, err) = GetTypeFromProtoMsg msg;
          d1 = (if err then observe (Logged Warn ''Unexpected message handled by HandleTell.'') d
                else d)
      in if msgType = MsgBlockSyncReqType then dispatchBlockSyncReq c sender msg d1
         else if msgType = MsgBlockSyncDataType then dispatchBlockSyncData c msg d1
         else observe (Logged Warn ''Unexpected msgType handled by HandleTell.'') d1)"

subsection \<open>The goroutines' steps\<close>

definition dropSender :: "nat \<Rightarrow> IotxDispatcher \<Rightarrow> IotxDispatcher" where
  "dropSender i d = d\<lparr>senders := take i (senders d) @ drop (Suc i) (senders d)\<rparr>"

text \<open>
  The \<open>i\<close>-th unfinished sender goroutine compares length and capacity: it drops its
  event with a warning and ends, or moves on to the send.
\<close>

definition enqueueEvent_check :: "nat \<Rightarrow> IotxDispatcher \<Rightarrow> IotxDispatcher option" where
  "enqueueEvent_check i d =
     (if i < length (senders d) \<and> fst (senders d ! i) = AtCheck then
        (if length (eventChan d) = eventChanCap d
         then Some (dropSender i (observe (Logged Warn ''dispatcher event chan is full, drop an event.'') d))
         else Some (d\<lparr>senders := (senders d)[i := (AtSend, snd (senders d ! i))]\<rparr>))
      else None)"

text \<open>
  The send \<open>d.eventChan <- event\<close> of the \<open>i\<close>-th sender: it can be taken only while
  the channel has room (the goroutine waits otherwise), and ends the goroutine.
\<close>

definition enqueueEvent_send :: "nat \<Rightarrow> IotxDispatcher \<Rightarrow> IotxDispatcher option" where
  "enqueueEvent_send i d =
     (if i < length (senders d) \<and> fst (senders d ! i) = AtSend
         \<and> length (eventChan d) < eventChanCap d
      then Some (dropSender i (d\<lparr>eventChan := eventChan d @ [snd (senders d ! i)]\<rparr>))
      else None)"

text \<open>The handler goroutine receives the oldest event, or sees the closed quit channel.\<close>

definition newsHandler_receive :: "IotxDispatcher \<Rightarrow> IotxDispatcher option" where
  "newsHandler_receive d =
     (case eventChan d of
        [] \<Rightarrow> None
      | m # rest \<Rightarrow> if handlerRunning d then Some (newsHandler_dispatch m (d\<lparr>eventChan := rest\<rparr>))
                    else None)"

definition newsHandler_quit :: "IotxDispatcher \<Rightarrow> IotxDispatcher option" where
  "newsHandler_quit d =
     (if handlerRunning d \<and> quit d
      then Some (observe (Logged Info ''News handler done.'') (d\<lparr>handlerRunning := False\<rparr>))
      else None)"

text \<open>
  An execution is a list of steps: calls of the public methods and steps of the
  goroutines, in any interleaving. A step that cannot be taken has no successor.
\<close>

datatype sched =
    CallAddSubscriber "32 word" Subscriber
  | CallStart
  | CallStop
  | CallHandleBroadcast "32 word" message
  | CallHandleTell "32 word" Addr message
  | SenderCheck nat
  | SenderSend nat
  | HandlerReceive
  | HandlerQuit

fun dstep :: "sched \<Rightarrow> IotxDispatcher \<Rightarrow> IotxDispatcher option" where
  "dstep (CallAddSubscriber c sub) d = Some (AddSubscriber c sub d)"
| "dstep CallStart d = Some (snd (IotxDispatcher_Start d))"
| "dstep CallStop d = Some (IotxDispatcher_Stop d)"
| "dstep (CallHandleBroadcast c msg) d = Some (HandleBroadcast c msg d)"
| "dstep (CallHandleTell c sender msg) d = Some (HandleTell c sender msg d)"
| "dstep (SenderCheck i) d = enqueueEvent_check i d"
| "dstep (SenderSend i) d = enqueueEvent_send i d"
| "dstep HandlerReceive d = newsHandler_receive d"
| "dstep HandlerQuit d = newsHandler_quit d"

fun dsteps :: "sched list \<Rightarrow> IotxDispatcher \<Rightarrow> IotxDispatcher option" where
  "dsteps [] d = Some d"
| "dsteps (x # xs) d = (case dstep x d of None \<Rightarrow> None | Some d1 \<Rightarrow> dsteps xs d1)"


fun invocations :: "observation list \<Rightarrow> (nat \<times> call) list" where
  "invocations [] = []"
| "invocations (Invoke s c # xs) = (s, c) # invocations xs"
| "invocations (_ # xs) = invocations xs"

section \<open>Auxiliary definitions for the properties\<close>

subsection \<open>Cached batch: invariant and example inputs\<close>

text \<open>
  The invariant of a cached batch built by the public operations: \<open>tag\<close> counts the
  snapshots held, the two snapshot stacks have the same height, the recorded queue
  lengths ascend and none exceeds the current queue length, and the saved cache objects
  are pairwise different objects allocated earlier.
\<close>

definition batch_inv :: "'a cachedBatch \<Rightarrow> bool" where
  "batch_inv cb \<longleftrightarrow>
     tag cb = int (length (batchShots cb)) \<and>
     length (cacheShots cb) = length (batchShots cb) \<and>
     sorted (batchShots cb) \<and>
     (\<forall>n \<in> set (batchShots cb). 0 \<le> n \<and> n \<le> int (length (writeQueue (KVStoreBatch cb)))) \<and>
     distinct (cacheShots cb) \<and>
     (\<forall>r \<in> set (cacheShots cb). r < nextRef cb) \<and>
     KVStoreCache cb < nextRef cb"

text \<open>
  \<open>keeps t bs cs q c cb\<close>: the batch \<open>cb\<close> still holds the snapshot with token
  \<open>t\<close> as it was taken: the snapshot stacks up to \<open>t\<close> are \<open>bs\<close> and \<open>cs\<close>, the
  queue starts with the \<open>q\<close> recorded then, the saved cache object still has the
  contents \<open>c\<close>, and it is not the object the batch writes to.
\<close>

definition keeps :: "int \<Rightarrow> int list \<Rightarrow> ref list \<Rightarrow> 'a writeInfo list \<Rightarrow> kvCache \<Rightarrow> 'a cachedBatch \<Rightarrow> bool" where
  "keeps t bs cs q c cb \<longleftrightarrow>
     batch_inv cb \<and> 0 \<le> t \<and> t < tag cb \<and>
     length bs = Suc (nat t) \<and> length cs = Suc (nat t) \<and>
     take (Suc (nat t)) (batchShots cb) = bs \<and>
     take (Suc (nat t)) (cacheShots cb) = cs \<and>
     last bs = int (length q) \<and>
     take (length q) (writeQueue (KVStoreBatch cb)) = q \<and>
     heap cb (last cs) = c \<and>
     KVStoreCache cb \<noteq> last cs"

text \<open>Example inputs: a stand-in for the hash functions, and short call sequences.\<close>

definition H0 :: hashing where
  "H0 = \<lparr>Hash160b = (\<lambda>b. b), BytesToCacheHash = (\<lambda>b. b)\<rparr>"

definition reuse_s1 :: "unit cachedBatch" where
  "reuse_s1 = snd (cachedBatch_Snapshot (snd (cachedBatch_Snapshot NewCachedBatch)))"

definition reuse_ops :: "unit batchOp list" where
  "reuse_ops = [OpRevert 0, OpPut ''ns'' ''k'' ''v'' [] (), OpSnapshot]"

definition alias_s1 :: "unit cachedBatch" where
  "alias_s1 = snd (cachedBatch_Snapshot NewCachedBatch)"

definition alias_ops :: "unit batchOp list" where
  "alias_ops = [OpRevert 0, OpPut ''ns'' ''k'' ''v'' [] ()]"

definition s3_pre :: "unit batchOp list" where
  "s3_pre = [OpPut ''ns'' ''k1'' ''v1'' [] ()]"

definition s3_ops :: "unit batchOp list" where
  "s3_ops = [OpPut ''ns'' ''k1'' ''v2'' [] (), OpDelete ''ns'' ''k1'' [] (), OpSnapshot, OpRevert 1]"

definition s3_s1 :: "unit cachedBatch" where
  "s3_s1 = snd (cachedBatch_Snapshot (run H0 s3_pre NewCachedBatch))"

definition two_snapshots :: "unit batchOp list" where
  "two_snapshots = [OpPut ''ns'' ''k1'' ''v1'' [] (), OpSnapshot, OpPut ''ns'' ''k1'' ''v2'' [] (), OpSnapshot]"

definition batch_with_k :: "unit cachedBatch" where
  "batch_with_k = cachedBatch_Put H0 ''ns'' ''k'' ''v0'' [] () NewCachedBatch"

subsection \<open>Endorsement set: invariant and example inputs\<close>

text \<open>
  The pair an endorsement is filed under, and the invariant that the list holds at most
  one endorsement per pair.
\<close>

definition pairOf :: "Endorsement \<Rightarrow> string \<times> ConsensusVoteTopic" where
  "pairOf e = (Endorser e, Topic (ConsensusVote e))"

definition onePerPair :: "Set \<Rightarrow> bool" where
  "onePerPair s \<longleftrightarrow> distinct (map pairOf (endorsements s))"

text \<open>
  \<open>tracks s rs\<close>: for every pair, \<open>rs\<close> lists the rounds added without error so far,
  and the set retains nothing for a pair with no such round and otherwise exactly one
  endorsement, of the highest of these rounds. \<open>record_add\<close> extends the lists by one
  call.
\<close>

definition roundOf :: "Endorsement \<Rightarrow> 32 word" where
  "roundOf e = Round (ConsensusVote e)"

definition tracks :: "Set \<Rightarrow> (string \<Rightarrow> ConsensusVoteTopic \<Rightarrow> 32 word list) \<Rightarrow> bool" where
  "tracks s rs \<longleftrightarrow>
     (\<forall>a tp. (rs a tp = [] \<longrightarrow> retained a tp s = []) \<and>
             (rs a tp \<noteq> [] \<longrightarrow> map roundOf (retained a tp s) = [Max (set (rs a tp))]))"

definition record_add :: "Endorsement \<Rightarrow> endorsementError option
    \<Rightarrow> (string \<Rightarrow> ConsensusVoteTopic \<Rightarrow> 32 word list) \<Rightarrow> (string \<Rightarrow> ConsensusVoteTopic \<Rightarrow> 32 word list)" where
  "record_add en err rs = (\<lambda>a tp. rs a tp @ addedRounds a tp [(en, err)])"

text \<open>
  Example inputs: the spec's scenarios S4 and S6 in one history, with the set and the
  errors it ends with.
\<close>

definition vote :: "bytes \<Rightarrow> string \<Rightarrow> ConsensusVoteTopic \<Rightarrow> 32 word \<Rightarrow> Endorsement" where
  "vote h a tp r =
     \<lparr>ConsensusVote = \<lparr>BlkHash = h, Height = 1, Round = r, Topic = tp\<rparr>,
      endorser = a, endorserPubKey = [], decision = True, signature = []\<rparr>"

definition s4_calls :: "Endorsement list" where
  "s4_calls = [vote ''AA'' ''A'' LOCK 1, vote ''AA'' ''A'' LOCK 2, vote ''AA'' ''A'' LOCK 1,
               vote ''AA'' ''B'' LOCK 7, vote ''BB'' ''A'' LOCK 9]"

definition s4_set :: Set where
  "s4_set = \<lparr>blkHash = ''AA'', round = 0,
              endorsements = [vote ''AA'' ''A'' LOCK 2, vote ''AA'' ''B'' LOCK 7]\<rparr>"

definition s4_log :: "(Endorsement \<times> endorsementError option) list" where
  "s4_log = [(vote ''AA'' ''A'' LOCK 1, None), (vote ''AA'' ''A'' LOCK 2, None),
       (vote ''AA'' ''A'' LOCK 1, Some ErrExpiredEndorsement), (vote ''AA'' ''B'' LOCK 7, None),
       (vote ''BB'' ''A'' LOCK 9, Some ErrInvalidHash)]"

subsection \<open>Sync worker: example inputs\<close>

text \<open>
  The spec's scenario S5: four peers and three intervals; the worker has made one tick
  before, so its round-robin index is 3.
\<close>

definition s5_env :: syncEnv where
  "s5_env = \<lparr>neighborsHandler = [''P1'', ''P2'', ''P3'', ''P1''],
             GetBlocksIntervalsToSync =
               (\<lambda>_. [\<lparr>Start = 11, End = 12\<rparr>, \<lparr>Start = 15, End = 16\<rparr>, \<lparr>Start = 18, End = 20\<rparr>]),
             unicastHandler = (\<lambda>_ _. False)\<rparr>"

definition s5_no_peers :: syncEnv where
  "s5_no_peers = s5_env\<lparr>neighborsHandler := []\<rparr>"

definition s5_worker :: syncWorker where
  "s5_worker = workerRun [Target 20, Tick s5_env] (newSyncWorker 1)"

subsection \<open>Dispatcher: example inputs\<close>

text \<open>
  A subscriber whose handlers never fail; the spec's scenario S2 (capacity 2, the handler
  not consuming) up to the full queue; a dispatcher after \<open>Stop\<close>; and two runs in
  which a unicast message for a chain without subscriber is consumed.
\<close>

definition sub1 :: Subscriber where
  "sub1 = \<lparr>subscriberId = 1, fails = (\<lambda>_. False)\<rparr>"


definition s2_full :: IotxDispatcher where
  "s2_full = \<lparr>started = 0, shutdown = 0, eventChan = [actionMsg 7 ''a1'', actionMsg 7 ''a2''],
      eventChanCap = 2, eventAudit = Map.empty, quit = False, handlerRunning = False,
      subscribers = [7 \<mapsto> sub1], senders = [], trace = []\<rparr>"

definition stopped_dispatcher :: IotxDispatcher where
  "stopped_dispatcher = IotxDispatcher_Stop (AddSubscriber 7 sub1 (NewDispatcher 2))"














section \<open>Properties of the cached batch\<close>

lemmas batch_defs = cachedBatch_Put_def cachedBatch_Delete_def cachedBatch_PutIfNotExists_def
  cachedBatch_Clear_def cachedBatch_Snapshot_def baseKVStoreBatch_batch_def baseKVStoreBatch_Clear_def
  baseKVStoreBatch_Size_def KVStoreCache_WriteIfNotExist_def KVStoreCache_Clone_def Let_def

subsection \<open>The invariant\<close>

lemma batch_inv_New: "batch_inv NewCachedBatch"
  by (simp add: batch_inv_def NewCachedBatch_def NewBatch_def)

lemma batch_inv_Put: "batch_inv cb \<Longrightarrow> batch_inv (cachedBatch_Put H ns k v ef ea cb)"
  by (auto simp: batch_inv_def batch_defs)

lemma batch_inv_Delete: "batch_inv cb \<Longrightarrow> batch_inv (cachedBatch_Delete H ns k ef ea cb)"
  by (auto simp: batch_inv_def batch_defs)

lemma batch_inv_PutIfNotExists:
  "batch_inv cb \<Longrightarrow> batch_inv (snd (cachedBatch_PutIfNotExists H ns k v ef ea cb))"
  by (auto simp: batch_inv_def batch_defs split: option.splits)

lemma batch_inv_Clear: "batch_inv cb \<Longrightarrow> batch_inv (cachedBatch_Clear cb)"
  by (auto simp: batch_inv_def batch_defs)

lemma batch_inv_Snapshot: "batch_inv cb \<Longrightarrow> batch_inv (snd (cachedBatch_Snapshot cb))"
  by (auto simp: batch_inv_def batch_defs sorted_append less_Suc_eq)

lemma Revert_invalid:
  "snapshot < 0 \<or> snapshot \<ge> tag cb \<Longrightarrow> cachedBatch_Revert snapshot cb = (Some ErrInvalidDB, cb)"
  by (simp add: cachedBatch_Revert_def)

lemma Revert_valid:
  assumes "batch_inv cb" "0 \<le> t" "t < tag cb"
  shows "cachedBatch_Revert t cb =
     (None, cb\<lparr>tag := t + 1,
               batchShots := take (Suc (nat t)) (batchShots cb),
               KVStoreBatch := (KVStoreBatch cb)\<lparr>writeQueue :=
                  take (nat (batchShots cb ! nat t)) (writeQueue (KVStoreBatch cb))\<rparr>,
               cacheShots := take (Suc (nat t)) (cacheShots cb),
               KVStoreCache := cacheShots cb ! nat t\<rparr>)"
proof -
  have n: "nat t < length (batchShots cb)" "nat t < length (cacheShots cb)"
    using assms by (auto simp: batch_inv_def)
  have b: "0 \<le> batchShots cb ! nat t" "batchShots cb ! nat t \<le> int (length (writeQueue (KVStoreBatch cb)))"
    using assms n by (auto simp: batch_inv_def)
  have s: "nat (t + 1) = Suc (nat t)" using assms by simp
  show ?thesis
    using assms n b
    by (simp add: cachedBatch_Revert_def slice_to_def index_at_def baseKVStoreBatch_truncate_def
        Let_def s batch_inv_def)
qed

lemma sorted_take_le_nth:
  "sorted (xs::int list) \<Longrightarrow> i < length xs \<Longrightarrow> n \<in> set (take (Suc i) xs) \<Longrightarrow> n \<le> xs ! i"
  by (auto simp: in_set_conv_nth sorted_iff_nth_mono)

lemma batch_inv_Revert: 
  assumes "batch_inv cb" shows "batch_inv (snd (cachedBatch_Revert t cb))"
proof (cases "t < 0 \<or> t \<ge> tag cb")
  case True
  then show ?thesis using assms by (simp add: Revert_invalid)
next
  case False
  then have r: "0 \<le> t" "t < tag cb" by auto
  have n: "nat t < length (batchShots cb)" "nat t < length (cacheShots cb)"
    using assms r by (auto simp: batch_inv_def)
  have b: "0 \<le> batchShots cb ! nat t" "batchShots cb ! nat t \<le> int (length (writeQueue (KVStoreBatch cb)))"
    using assms n by (auto simp: batch_inv_def)
  have le: "\<forall>n \<in> set (take (Suc (nat t)) (batchShots cb)). 0 \<le> n \<and> n \<le> batchShots cb ! nat t"
    using assms n sorted_take_le_nth[of "batchShots cb" "nat t"]
    by (auto simp: batch_inv_def dest: in_set_takeD)
  have c: "cacheShots cb ! nat t < nextRef cb"
    using assms n by (auto simp: batch_inv_def)
  show ?thesis
    using assms r n b le c
    by (auto simp: Revert_valid[OF assms r] batch_inv_def min_def dest: in_set_takeD)
qed

lemma batch_inv_exec: "batch_inv cb \<Longrightarrow> batch_inv (exec H x cb)"
  by (cases x) (simp_all add: batch_inv_Put batch_inv_Delete batch_inv_PutIfNotExists
      batch_inv_Clear batch_inv_Snapshot batch_inv_Revert)

lemma batch_inv_run: "batch_inv cb \<Longrightarrow> batch_inv (run H xs cb)"
  by (induction xs arbitrary: cb) (simp_all add: batch_inv_exec)

subsection \<open>A held snapshot is preserved\<close>

lemma keeps_Snapshot:
  assumes "batch_inv s0" "cachedBatch_Snapshot s0 = (t, s1)"
  shows "keeps t (batchShots s1) (cacheShots s1) (writeQueue (KVStoreBatch s1))
           (heap s1 (KVStoreCache s1)) s1"
proof -
  have i: "batch_inv s1" using batch_inv_Snapshot[OF assms(1)] assms(2) by simp
  show ?thesis
    using assms i unfolding keeps_def
    by (auto simp: batch_inv_def batch_defs)
qed

lemma keeps_nth:
  assumes "keeps t bs cs q c cb"
  shows "nat t < length (batchShots cb)" "nat t < length (cacheShots cb)"
    "batchShots cb ! nat t = int (length q)" "cacheShots cb ! nat t = last cs"
proof -
  show n: "nat t < length (batchShots cb)" "nat t < length (cacheShots cb)"
    using assms by (auto simp: keeps_def batch_inv_def)
  have b: "bs \<noteq> []" "length bs - 1 = nat t" "cs \<noteq> []" "length cs - 1 = nat t"
    using assms by (auto simp: keeps_def)
  have "bs ! nat t = take (Suc (nat t)) (batchShots cb) ! nat t"
    using assms by (simp add: keeps_def)
  then have "last bs = batchShots cb ! nat t"
    using b by (simp add: last_conv_nth)
  then show "batchShots cb ! nat t = int (length q)" using assms by (simp add: keeps_def)
  have "cs ! nat t = take (Suc (nat t)) (cacheShots cb) ! nat t"
    using assms by (simp add: keeps_def)
  then have "last cs = cacheShots cb ! nat t"
    using b by (simp add: last_conv_nth)
  then show "cacheShots cb ! nat t = last cs" by simp
qed

lemma keeps_frame:
  assumes k: "keeps t bs cs q c cb" and i: "batch_inv cb'"
    and f: "tag cb' = tag cb" "batchShots cb' = batchShots cb" "cacheShots cb' = cacheShots cb"
      "KVStoreCache cb' = KVStoreCache cb"
    and w: "writeQueue (KVStoreBatch cb') = writeQueue (KVStoreBatch cb) @ ys"
    and h: "\<And>a. a \<noteq> KVStoreCache cb \<Longrightarrow> heap cb' a = heap cb a"
  shows "keeps t bs cs q c cb'"
proof -
  have "length (take (length q) (writeQueue (KVStoreBatch cb))) = length q"
    using k by (simp add: keeps_def)
  then have l: "length q \<le> length (writeQueue (KVStoreBatch cb))" by simp
  have "take (length q) (writeQueue (KVStoreBatch cb')) = q"
    using k l by (simp add: w keeps_def)
  moreover have "heap cb' (last cs) = c"
    using k h[of "last cs"] by (auto simp: keeps_def)
  ultimately show ?thesis
    using k i f unfolding keeps_def by simp
qed

lemma Put_fields:
  "tag (cachedBatch_Put H ns k v ef ea cb) = tag cb"
  "batchShots (cachedBatch_Put H ns k v ef ea cb) = batchShots cb"
  "cacheShots (cachedBatch_Put H ns k v ef ea cb) = cacheShots cb"
  "KVStoreCache (cachedBatch_Put H ns k v ef ea cb) = KVStoreCache cb"
  "writeQueue (KVStoreBatch (cachedBatch_Put H ns k v ef ea cb)) =
     writeQueue (KVStoreBatch cb) @
       [\<lparr>writeType = Put, namespace = ns, key = k, value = v, errorFormat = ef, errorArgs = ea\<rparr>]"
  "a \<noteq> KVStoreCache cb \<Longrightarrow> heap (cachedBatch_Put H ns k v ef ea cb) a = heap cb a"
  by (simp_all add: cachedBatch_Put_def baseKVStoreBatch_batch_def Let_def)

lemma Delete_fields:
  "tag (cachedBatch_Delete H ns k ef ea cb) = tag cb"
  "batchShots (cachedBatch_Delete H ns k ef ea cb) = batchShots cb"
  "cacheShots (cachedBatch_Delete H ns k ef ea cb) = cacheShots cb"
  "KVStoreCache (cachedBatch_Delete H ns k ef ea cb) = KVStoreCache cb"
  "writeQueue (KVStoreBatch (cachedBatch_Delete H ns k ef ea cb)) =
     writeQueue (KVStoreBatch cb) @
       [\<lparr>writeType = Delete, namespace = ns, key = k, value = [], errorFormat = ef, errorArgs = ea\<rparr>]"
  "a \<noteq> KVStoreCache cb \<Longrightarrow> heap (cachedBatch_Delete H ns k ef ea cb) a = heap cb a"
  by (simp_all add: cachedBatch_Delete_def baseKVStoreBatch_batch_def Let_def)

lemma PutIfNotExists_fields:
  "tag (snd (cachedBatch_PutIfNotExists H ns k v ef ea cb)) = tag cb"
  "batchShots (snd (cachedBatch_PutIfNotExists H ns k v ef ea cb)) = batchShots cb"
  "cacheShots (snd (cachedBatch_PutIfNotExists H ns k v ef ea cb)) = cacheShots cb"
  "KVStoreCache (snd (cachedBatch_PutIfNotExists H ns k v ef ea cb)) = KVStoreCache cb"
  "writeQueue (KVStoreBatch (snd (cachedBatch_PutIfNotExists H ns k v ef ea cb))) =
     writeQueue (KVStoreBatch cb) @
       (if fst (cachedBatch_PutIfNotExists H ns k v ef ea cb) = None
        then [\<lparr>writeType = PutIfNotExists, namespace = ns, key = k, value = v,
               errorFormat = ef, errorArgs = ea\<rparr>]
        else [])"
  "a \<noteq> KVStoreCache cb \<Longrightarrow> heap (snd (cachedBatch_PutIfNotExists H ns k v ef ea cb)) a = heap cb a"
  by (simp_all add: cachedBatch_PutIfNotExists_def baseKVStoreBatch_batch_def Let_def
      KVStoreCache_WriteIfNotExist_def split: option.splits)

lemma keeps_write:
  assumes "keeps t bs cs q c cb"
  shows "keeps t bs cs q c (cachedBatch_Put H ns k v ef ea cb)"
    "keeps t bs cs q c (cachedBatch_Delete H ns k ef ea cb)"
    "keeps t bs cs q c (snd (cachedBatch_PutIfNotExists H ns k v ef ea cb))"
proof -
  have i: "batch_inv cb" using assms by (simp add: keeps_def)
  show "keeps t bs cs q c (cachedBatch_Put H ns k v ef ea cb)"
    by (rule keeps_frame[OF assms batch_inv_Put[OF i] Put_fields])
  show "keeps t bs cs q c (cachedBatch_Delete H ns k ef ea cb)"
    by (rule keeps_frame[OF assms batch_inv_Delete[OF i] Delete_fields])
  show "keeps t bs cs q c (snd (cachedBatch_PutIfNotExists H ns k v ef ea cb))"
    by (rule keeps_frame[OF assms batch_inv_PutIfNotExists[OF i] PutIfNotExists_fields])
qed

lemma keeps_snap:
  assumes "keeps t bs cs q c cb"
  shows "keeps t bs cs q c (snd (cachedBatch_Snapshot cb))"
proof -
  let ?cb = "snd (cachedBatch_Snapshot cb)"
  have e: "tag ?cb = tag cb + 1"
    "batchShots ?cb = batchShots cb @ [int (length (writeQueue (KVStoreBatch cb)))]"
    "cacheShots ?cb = cacheShots cb @ [nextRef cb]"
    "KVStoreBatch ?cb = KVStoreBatch cb" "KVStoreCache ?cb = KVStoreCache cb"
    "heap ?cb = (heap cb)(nextRef cb := heap cb (KVStoreCache cb))"
    by (simp_all add: batch_defs)
  have i: "batch_inv cb" using assms by (simp add: keeps_def)
  have "last cs \<in> set (cacheShots cb)"
    using keeps_nth[OF assms] by (metis nth_mem)
  then have ne: "last cs \<noteq> nextRef cb" using i by (auto simp: batch_inv_def)
  have "batch_inv ?cb" by (rule batch_inv_Snapshot[OF i])
  moreover have "t < tag ?cb" using assms by (simp add: e keeps_def)
  moreover have "take (Suc (nat t)) (batchShots ?cb) = bs"
    using assms keeps_nth(1)[OF assms] by (simp add: e keeps_def)
  moreover have "take (Suc (nat t)) (cacheShots ?cb) = cs"
    using assms keeps_nth(2)[OF assms] by (simp add: e keeps_def)
  moreover have "take (length q) (writeQueue (KVStoreBatch ?cb)) = q"
    using assms by (simp add: e keeps_def)
  moreover have "heap ?cb (last cs) = c" using assms ne by (simp add: e keeps_def)
  moreover have "KVStoreCache ?cb \<noteq> last cs" using assms by (simp add: e keeps_def)
  ultimately show ?thesis
    using assms unfolding keeps_def by blast
qed

lemma keeps_revert:
  assumes "keeps t bs cs q c cb" "r < 0 \<or> t < r"
  shows "keeps t bs cs q c (snd (cachedBatch_Revert r cb))"
proof (cases "r < 0 \<or> r \<ge> tag cb")
  case True
  then show ?thesis using assms by (simp add: Revert_invalid)
next
  case False
  then have r: "0 \<le> r" "r < tag cb" "t < r" using assms by auto
  have i: "batch_inv cb" using assms by (simp add: keeps_def)
  have t0: "0 \<le> t" using assms by (simp add: keeps_def)
  have n: "nat r < length (batchShots cb)" "nat r < length (cacheShots cb)" "nat t < nat r"
    using i r t0 by (auto simp: batch_inv_def)
  have le: "batchShots cb ! nat t \<le> batchShots cb ! nat r"
    using i n by (auto simp: batch_inv_def sorted_iff_nth_mono)
  have ne: "cacheShots cb ! nat r \<noteq> cacheShots cb ! nat t"
    using i n by (auto simp: batch_inv_def nth_eq_iff_index_eq)
  have lq: "length q \<le> nat (batchShots cb ! nat r)"
    using le keeps_nth(3)[OF assms(1)] by simp
  have q: "take (length q) (take (nat (batchShots cb ! nat r)) (writeQueue (KVStoreBatch cb))) = q"
    using assms(1) lq by (simp add: keeps_def min_def)
  let ?cb = "snd (cachedBatch_Revert r cb)"
  have e: "tag ?cb = r + 1"
    "batchShots ?cb = take (Suc (nat r)) (batchShots cb)"
    "cacheShots ?cb = take (Suc (nat r)) (cacheShots cb)"
    "writeQueue (KVStoreBatch ?cb) = take (nat (batchShots cb ! nat r)) (writeQueue (KVStoreBatch cb))"
    "KVStoreCache ?cb = cacheShots cb ! nat r" "heap ?cb = heap cb"
    by (simp_all add: Revert_valid[OF i r(1,2)])
  have m: "min (nat t) (nat r) = nat t" "min (nat r) (nat t) = nat t" using n by simp_all
  have "batch_inv ?cb" by (rule batch_inv_Revert[OF i])
  moreover have "t < tag ?cb" using r e by simp
  moreover have "take (Suc (nat t)) (batchShots ?cb) = bs"
    using assms(1) by (simp add: e keeps_def m)
  moreover have "take (Suc (nat t)) (cacheShots ?cb) = cs"
    using assms(1) by (simp add: e keeps_def m)
  moreover have "take (length q) (writeQueue (KVStoreBatch ?cb)) = q"
    using q by (simp only: e)
  moreover have "heap ?cb (last cs) = c" using assms(1) by (simp add: e keeps_def)
  moreover have "KVStoreCache ?cb \<noteq> last cs"
    using ne keeps_nth(4)[OF assms(1)] by (simp add: e)
  ultimately show ?thesis
    using assms(1) unfolding keeps_def by blast
qed

lemma keeps_exec: "keeps t bs cs q c cb \<Longrightarrow> keeps_snapshot t x \<Longrightarrow> keeps t bs cs q c (exec H x cb)"
  by (cases x) (simp_all add: keeps_write keeps_snap keeps_revert)

lemma keeps_run:
  "keeps t bs cs q c cb \<Longrightarrow> \<forall>x \<in> set xs. keeps_snapshot t x \<Longrightarrow> keeps t bs cs q c (run H xs cb)"
  by (induction xs arbitrary: cb) (simp_all add: keeps_exec)

lemma keeps_final:
  assumes "keeps t bs cs q c cb"
  shows "\<exists>cb'. cachedBatch_Revert t cb = (None, cb') \<and> writeQueue (KVStoreBatch cb') = q \<and>
           tag cb' = t + 1 \<and> batchShots cb' = bs \<and> cacheShots cb' = cs \<and>
           heap cb' (KVStoreCache cb') = c"
proof -
  have i: "batch_inv cb" and r: "0 \<le> t" "t < tag cb" using assms by (auto simp: keeps_def)
  show ?thesis
    using assms keeps_nth[OF assms]
    by (auto simp: Revert_valid[OF i r] keeps_def)
qed

subsection \<open>Snapshot and revert\<close>

text \<open>
  C1, as the code has it. Take any batch built from \<open>NewCachedBatch\<close> by the public
  operations, take a snapshot, which returns the token \<open>t\<close>, and then apply any
  sequence of \<open>Put\<close>, \<open>PutIfNotExists\<close>, \<open>Delete\<close>, \<open>Snapshot\<close> and \<open>Revert\<close>
  calls in which every \<open>Revert\<close> has a token above \<open>t\<close> or a negative one. Then
  \<open>Revert(t)\<close> succeeds, the write queue is again the queue recorded at the snapshot,
  entry by entry, as many snapshots are held as right after the snapshot, with the same
  recorded queue lengths, the live cache has the contents it had then, and \<open>Get\<close>
  answers every namespace and key as it did then. Nothing is said about the caches that
  the snapshots saved, nor about which cache object is the live one: in both the batch
  may differ from the one right after the snapshot.
\<close>

theorem snapshot_revert_round_trip:
  assumes "cachedBatch_Snapshot (run H pre NewCachedBatch) = (t, s1)"
    and "\<forall>x \<in> set ops. keeps_snapshot t x"
  shows "\<exists>s2. cachedBatch_Revert t (run H ops s1) = (None, s2) \<and>
           KVStoreBatch s2 = KVStoreBatch s1 \<and> tag s2 = tag s1 \<and>
           batchShots s2 = batchShots s1 \<and>
           heap s2 (KVStoreCache s2) = heap s1 (KVStoreCache s1) \<and>
           (\<forall>ns k. cachedBatch_Get H ns k s2 = cachedBatch_Get H ns k s1)"
proof -
  let ?q = "writeQueue (KVStoreBatch s1)" and ?c = "heap s1 (KVStoreCache s1)"
  have i: "batch_inv (run H pre NewCachedBatch)"
    by (rule batch_inv_run[OF batch_inv_New])
  have k1: "keeps t (batchShots s1) (cacheShots s1) ?q ?c s1"
    by (rule keeps_Snapshot[OF i assms(1)])
  have k: "keeps t (batchShots s1) (cacheShots s1) ?q ?c (run H ops s1)"
    by (rule keeps_run[OF k1 assms(2)])
  obtain s2 where r: "cachedBatch_Revert t (run H ops s1) = (None, s2)"
    and f: "writeQueue (KVStoreBatch s2) = ?q" "tag s2 = t + 1" "batchShots s2 = batchShots s1"
      "cacheShots s2 = cacheShots s1" "heap s2 (KVStoreCache s2) = ?c"
    using keeps_final[OF k] by blast
  have "tag s1 = t + 1" using assms(1) by (auto simp: batch_defs)
  then show ?thesis
    using r f by (simp add: cachedBatch_Get_def)
qed

lemmas eval_defs = H0_def batch_defs cachedBatch_Revert_def NewCachedBatch_def NewBatch_def
  cachedBatch_Get_def cachedBatch_hash_def KVStoreCache_Read_def KVStoreCache_Write_def
  KVStoreCache_Evict_def KVStoreCache_Clear_def slice_to_def index_at_def baseKVStoreBatch_truncate_def

text \<open>
  C1 as stated does not hold: tokens are positions in the snapshot stack. After
  \<open>Revert(0)\<close> has discarded the snapshot with token 1, the next \<open>Snapshot\<close> returns
  1 again, and \<open>Revert(1)\<close> succeeds but restores that later snapshot: the queue holds
  the \<open>Put\<close> made in between and \<open>Get\<close> finds its value.
\<close>

theorem snapshot_token_reuse:
  "fst (cachedBatch_Snapshot (snd (cachedBatch_Snapshot (NewCachedBatch :: unit cachedBatch)))) = 1 \<and>
   fst (cachedBatch_Revert 1 (run H0 reuse_ops reuse_s1)) = None \<and>
   writeQueue (KVStoreBatch reuse_s1) = [] \<and>
   writeQueue (KVStoreBatch (snd (cachedBatch_Revert 1 (run H0 reuse_ops reuse_s1)))) =
     [\<lparr>writeType = Put, namespace = ''ns'', key = ''k'', value = ''v'', errorFormat = [], errorArgs = ()\<rparr>] \<and>
   cachedBatch_Get H0 ''ns'' ''k'' reuse_s1 = Inl ErrNotExist \<and>
   cachedBatch_Get H0 ''ns'' ''k'' (snd (cachedBatch_Revert 1 (run H0 reuse_ops reuse_s1))) = Inr ''v''"
  by (simp add: reuse_s1_def reuse_ops_def eval_defs)

text \<open>
  C6 does not hold in one respect: a successful \<open>Revert(t)\<close> does not always restore
  the cache as it was saved at snapshot \<open>t\<close>. \<open>Snapshot\<close> saves a clone of the cache,
  but \<open>Revert\<close> makes the saved object itself the live cache, so writes after a
  revert change the saved snapshot. Here a snapshot of the empty batch is taken
  (token 0), the batch is reverted to it, a \<open>Put\<close> follows, and the batch is reverted
  to token 0 again: the second revert succeeds and empties the queue, but \<open>Get\<close> still
  finds the value put after the first one, which the cache saved at the snapshot did
  not hold.
\<close>

theorem Revert_restores_modified_snapshot:
  "fst (cachedBatch_Snapshot (NewCachedBatch :: unit cachedBatch)) = 0 \<and>
   fst (cachedBatch_Revert 0 (run H0 alias_ops alias_s1)) = None \<and>
   writeQueue (KVStoreBatch (snd (cachedBatch_Revert 0 (run H0 alias_ops alias_s1)))) = [] \<and>
   cachedBatch_Get H0 ''ns'' ''k'' alias_s1 = Inl ErrNotExist \<and>
   cachedBatch_Get H0 ''ns'' ''k'' (snd (cachedBatch_Revert 0 (run H0 alias_ops alias_s1))) = Inr ''v''"
  by (simp add: alias_s1_def alias_ops_def eval_defs)

text \<open>
  The round trip of C1 on the spec's scenario S3, extended by a later snapshot and a
  revert to it.
\<close>

theorem snapshot_revert_round_trip_witness:
  "cachedBatch_Snapshot (run H0 s3_pre NewCachedBatch) = (0, s3_s1) \<and>
   list_all (keeps_snapshot 0) s3_ops \<and>
   fst (cachedBatch_Revert 0 (run H0 s3_ops s3_s1)) = None \<and>
   KVStoreBatch (snd (cachedBatch_Revert 0 (run H0 s3_ops s3_s1))) = KVStoreBatch s3_s1 \<and>
   writeQueue (KVStoreBatch s3_s1) =
     [\<lparr>writeType = Put, namespace = ''ns'', key = ''k1'', value = ''v1'', errorFormat = [], errorArgs = ()\<rparr>] \<and>
   cachedBatch_Get H0 ''ns'' ''k1'' (snd (cachedBatch_Revert 0 (run H0 s3_ops s3_s1))) = Inr ''v1''"
proof -
  have a: "cachedBatch_Snapshot (run H0 s3_pre NewCachedBatch) = (0, s3_s1)"
    by (simp add: s3_s1_def s3_pre_def eval_defs)
  have b: "\<forall>x \<in> set s3_ops. keeps_snapshot 0 x"
    by (simp add: s3_ops_def)
  have q: "writeQueue (KVStoreBatch s3_s1) =
     [\<lparr>writeType = Put, namespace = ''ns'', key = ''k1'', value = ''v1'', errorFormat = [], errorArgs = ()\<rparr>]"
    by (simp add: s3_s1_def s3_pre_def eval_defs)
  have g: "cachedBatch_Get H0 ''ns'' ''k1'' s3_s1 = Inr ''v1''"
    by (simp add: s3_s1_def s3_pre_def eval_defs)
  from snapshot_revert_round_trip[OF a b] a b q g show ?thesis
    by (auto simp: list_all_iff)
qed

text \<open>
  What \<open>Revert\<close> does hold to. On a batch built from \<open>NewCachedBatch\<close> by the public
  operations, \<open>Revert(t)\<close> returns the invalid-snapshot error exactly when \<open>t < 0\<close> or
  \<open>t\<close> is not below the number of snapshots held, and it returns no other error (in
  particular it does not panic). When it fails the batch is unchanged. When it succeeds
  the write queue is cut to the length recorded at snapshot \<open>t\<close>, the live cache is the
  cache object stored at snapshot \<open>t\<close> (\<open>Revert\<close> itself changes no cache contents),
  and the snapshot stacks keep the entries up to and including \<open>t\<close>.
\<close>

lemma Revert_contract:
  "let cb = run H ops NewCachedBatch; r = cachedBatch_Revert t cb in
     length (batchShots cb) = length (cacheShots cb) \<and>
     (fst r = Some ErrInvalidDB \<longleftrightarrow> (t < 0 \<or> int (length (cacheShots cb)) \<le> t)) \<and>
     (fst r = None \<or> fst r = Some ErrInvalidDB) \<and>
     (fst r \<noteq> None \<longrightarrow> snd r = cb) \<and>
     (fst r = None \<longrightarrow>
        writeQueue (KVStoreBatch (snd r)) =
          take (nat (batchShots cb ! nat t)) (writeQueue (KVStoreBatch cb)) \<and>
        KVStoreCache (snd r) = cacheShots cb ! nat t \<and> heap (snd r) = heap cb \<and>
        batchShots (snd r) = take (Suc (nat t)) (batchShots cb) \<and>
        cacheShots (snd r) = take (Suc (nat t)) (cacheShots cb) \<and>
        tag (snd r) = t + 1)"
proof -
  let ?cb = "run H ops NewCachedBatch"
  have i: "batch_inv ?cb" by (rule batch_inv_run[OF batch_inv_New])
  have l: "length (batchShots ?cb) = length (cacheShots ?cb)" "tag ?cb = int (length (cacheShots ?cb))"
    using i by (simp_all add: batch_inv_def)
  show ?thesis
  proof (cases "t < 0 \<or> tag ?cb \<le> t")
    case True
    then show ?thesis using l by (simp add: Revert_invalid Let_def)
  next
    case False
    then have r: "0 \<le> t" "t < tag ?cb" by auto
    show ?thesis using l r by (simp add: Revert_valid[OF i r] Let_def)
  qed
qed

text \<open>
  On a batch holding two snapshots: a revert to token 0, and the tokens 2 and -1, which
  are out of range.
\<close>

lemma Revert_contract_example:
  "fst (cachedBatch_Revert 0 (run H0 two_snapshots NewCachedBatch)) = None \<and>
   writeQueue (KVStoreBatch (snd (cachedBatch_Revert 0 (run H0 two_snapshots NewCachedBatch)))) =
     [\<lparr>writeType = Put, namespace = ''ns'', key = ''k1'', value = ''v1'', errorFormat = [], errorArgs = ()\<rparr>] \<and>
   cacheShots (snd (cachedBatch_Revert 0 (run H0 two_snapshots NewCachedBatch))) = [1] \<and>
   cachedBatch_Revert 2 (run H0 two_snapshots NewCachedBatch) = (Some ErrInvalidDB, run H0 two_snapshots NewCachedBatch) \<and>
   cachedBatch_Revert (- 1) (run H0 two_snapshots NewCachedBatch) = (Some ErrInvalidDB, run H0 two_snapshots NewCachedBatch)"
proof -
  have l: "cacheShots (run H0 two_snapshots NewCachedBatch) = [1, 2]"
    "batchShots (run H0 two_snapshots NewCachedBatch) = [1, 2]"
    "writeQueue (KVStoreBatch (run H0 two_snapshots (NewCachedBatch :: unit cachedBatch))) =
       [\<lparr>writeType = Put, namespace = ''ns'', key = ''k1'', value = ''v1'', errorFormat = [], errorArgs = ()\<rparr>,
        \<lparr>writeType = Put, namespace = ''ns'', key = ''k1'', value = ''v2'', errorFormat = [], errorArgs = ()\<rparr>]"
    by (simp_all add: two_snapshots_def eval_defs)
  show ?thesis
    using Revert_contract[of H0 two_snapshots 0] Revert_contract[of H0 two_snapshots 2]
      Revert_contract[of H0 two_snapshots "- 1"]
    by (auto simp: Let_def l prod_eq_iff)
qed

text \<open>
  C3. \<open>PutIfNotExists\<close> on a cached batch returns no error exactly when the live cache
  has no entry under the hash of namespace and key, and then appends one
  \<open>PutIfNotExists\<close> entry to the write queue; otherwise it returns
  \<open>ErrAlreadyExist\<close> and leaves the batch, the queue included, unchanged. Right after
  \<open>Delete(ns, k)\<close> it succeeds, with the \<open>Delete\<close> entry still queued before it.
\<close>

theorem PutIfNotExists_decided_by_cache:
  "(fst (cachedBatch_PutIfNotExists H ns k v ef ea cb) = None \<longleftrightarrow>
      heap cb (KVStoreCache cb) (cachedBatch_hash H ns k) = None) \<and>
   (fst (cachedBatch_PutIfNotExists H ns k v ef ea cb) = None \<longrightarrow>
      writeQueue (KVStoreBatch (snd (cachedBatch_PutIfNotExists H ns k v ef ea cb))) =
        writeQueue (KVStoreBatch cb) @
          [\<lparr>writeType = PutIfNotExists, namespace = ns, key = k, value = v,
            errorFormat = ef, errorArgs = ea\<rparr>]) \<and>
   (fst (cachedBatch_PutIfNotExists H ns k v ef ea cb) \<noteq> None \<longrightarrow>
      cachedBatch_PutIfNotExists H ns k v ef ea cb = (Some ErrAlreadyExist, cb)) \<and>
   fst (cachedBatch_PutIfNotExists H ns k v ef ea (cachedBatch_Delete H ns k ef' ea' cb)) = None \<and>
   writeQueue (KVStoreBatch (snd (cachedBatch_PutIfNotExists H ns k v ef ea
                                    (cachedBatch_Delete H ns k ef' ea' cb)))) =
     writeQueue (KVStoreBatch cb) @
       [\<lparr>writeType = Delete, namespace = ns, key = k, value = [], errorFormat = ef', errorArgs = ea'\<rparr>,
        \<lparr>writeType = PutIfNotExists, namespace = ns, key = k, value = v,
          errorFormat = ef, errorArgs = ea\<rparr>]"
  by (auto simp: cachedBatch_PutIfNotExists_def cachedBatch_Delete_def KVStoreCache_WriteIfNotExist_def
      KVStoreCache_Evict_def baseKVStoreBatch_batch_def Let_def split: option.splits)

text \<open>
  C3 on a batch that holds \<open>k\<close>: the key is refused, another key is accepted, and
  \<open>k\<close> is accepted again after its \<open>Delete\<close>.
\<close>

theorem PutIfNotExists_decided_by_cache_witness:
  "cachedBatch_PutIfNotExists H0 ''ns'' ''k'' ''v'' [] () batch_with_k = (Some ErrAlreadyExist, batch_with_k) \<and>
   fst (cachedBatch_PutIfNotExists H0 ''ns'' ''k2'' ''v'' [] () batch_with_k) = None \<and>
   map writeType (writeQueue (KVStoreBatch (snd (cachedBatch_PutIfNotExists H0 ''ns'' ''k2'' ''v'' [] () batch_with_k))))
     = [Put, PutIfNotExists] \<and>
   fst (cachedBatch_PutIfNotExists H0 ''ns'' ''k'' ''v'' [] () (cachedBatch_Delete H0 ''ns'' ''k'' [] () batch_with_k)) = None \<and>
   map writeType (writeQueue (KVStoreBatch (snd (cachedBatch_PutIfNotExists H0 ''ns'' ''k'' ''v'' [] ()
       (cachedBatch_Delete H0 ''ns'' ''k'' [] () batch_with_k))))) = [Put, Delete, PutIfNotExists]"
proof -
  have h: "heap batch_with_k (KVStoreCache batch_with_k) (cachedBatch_hash H0 ''ns'' ''k'') = Some ''v0''"
    "heap batch_with_k (KVStoreCache batch_with_k) (cachedBatch_hash H0 ''ns'' ''k2'') = None"
    "map writeType (writeQueue (KVStoreBatch batch_with_k)) = [Put]"
    by (simp_all add: batch_with_k_def eval_defs)
  show ?thesis
    using PutIfNotExists_decided_by_cache[of H0 "''ns''" "''k''" "''v''" "[]" "()" batch_with_k "[]" "()"]
      PutIfNotExists_decided_by_cache[of H0 "''ns''" "''k2''" "''v''" "[]" "()" batch_with_k "[]" "()"]
    by (simp add: h)
qed

text \<open>
  C10. \<open>PutIfNotExists\<close> on the base batch returns nil and appends a
  \<open>PutIfNotExists\<close> entry whatever the queue holds; a second call for the same
  namespace and key does so again.
\<close>

theorem base_PutIfNotExists_unconditional:
  "baseKVStoreBatch_PutIfNotExists ns k v ef ea b =
     (None, b\<lparr>writeQueue := writeQueue b @
        [\<lparr>writeType = PutIfNotExists, namespace = ns, key = k, value = v,
          errorFormat = ef, errorArgs = ea\<rparr>]\<rparr>) \<and>
   fst (baseKVStoreBatch_PutIfNotExists ns k v' ef' ea'
          (snd (baseKVStoreBatch_PutIfNotExists ns k v ef ea b))) = None \<and>
   writeQueue (snd (baseKVStoreBatch_PutIfNotExists ns k v' ef' ea'
          (snd (baseKVStoreBatch_PutIfNotExists ns k v ef ea b)))) =
     writeQueue b @
       [\<lparr>writeType = PutIfNotExists, namespace = ns, key = k, value = v,
         errorFormat = ef, errorArgs = ea\<rparr>,
        \<lparr>writeType = PutIfNotExists, namespace = ns, key = k, value = v',
         errorFormat = ef', errorArgs = ea'\<rparr>]"
  by (simp add: baseKVStoreBatch_PutIfNotExists_def baseKVStoreBatch_batch_def)

section \<open>Properties of the endorsement set\<close>

lemma samePair_pairOf: "samePair a tp e \<longleftrightarrow> pairOf e = (a, tp)"
  by (auto simp: samePair_def pairOf_def)

lemma loop_cases:
  assumes "\<forall>k<i. pairOf (endorsements s ! k) \<noteq> pairOf en" "i \<le> length (endorsements s)"
  shows "(AddEndorsement_loop en i s = (None, s\<lparr>endorsements := endorsements s @ [en]\<rparr>)
            \<and> (\<forall>e \<in> set (endorsements s). pairOf e \<noteq> pairOf en))
       \<or> (\<exists>j<length (endorsements s). pairOf (endorsements s ! j) = pairOf en
            \<and> (\<forall>k<j. pairOf (endorsements s ! k) \<noteq> pairOf en)
            \<and> (if Round (ConsensusVote (endorsements s ! j)) < Round (ConsensusVote en)
                then AddEndorsement_loop en i s = (None, s\<lparr>endorsements := (endorsements s)[j := en]\<rparr>)
                else AddEndorsement_loop en i s = (Some ErrExpiredEndorsement, s)))"
  using assms
proof (induction en i s rule: AddEndorsement_loop.induct)
  case (1 en i s)
  show ?case
  proof (cases "i < length (endorsements s)")
    case False
    then have "\<forall>e \<in> set (endorsements s). pairOf e \<noteq> pairOf en"
      using "1.prems" by (auto simp: in_set_conv_nth)
    then show ?thesis using False by (subst AddEndorsement_loop.simps) simp
  next
    case True
    show ?thesis
    proof (cases "pairOf (endorsements s ! i) = pairOf en")
      case same: True
      then have m: "Endorser (endorsements s ! i) = Endorser en"
        "Topic (ConsensusVote (endorsements s ! i)) = Topic (ConsensusVote en)"
        by (auto simp: pairOf_def)
      have "AddEndorsement_loop en i s =
          (if Round (ConsensusVote (endorsements s ! i)) < Round (ConsensusVote en)
           then (None, s\<lparr>endorsements := (endorsements s)[i := en]\<rparr>)
           else (Some ErrExpiredEndorsement, s))"
        using True m by (subst AddEndorsement_loop.simps) (simp add: Let_def)
      then show ?thesis using True same "1.prems" by (intro disjI2 exI[of _ i]) auto
    next
      case diff: False
      have step: "AddEndorsement_loop en i s = AddEndorsement_loop en (Suc i) s"
        using True diff by (subst AddEndorsement_loop.simps) (auto simp: Let_def pairOf_def)
      have p: "\<forall>k<Suc i. pairOf (endorsements s ! k) \<noteq> pairOf en"
        using "1.prems" diff by (auto simp: less_Suc_eq)
      have "Endorser (endorsements s ! i) \<noteq> Endorser en \<or>
            Topic (ConsensusVote (endorsements s ! i)) \<noteq> Topic (ConsensusVote en)"
        using diff by (auto simp: pairOf_def)
      then have ih: "(AddEndorsement_loop en (Suc i) s = (None, s\<lparr>endorsements := endorsements s @ [en]\<rparr>)
            \<and> (\<forall>e \<in> set (endorsements s). pairOf e \<noteq> pairOf en))
       \<or> (\<exists>j<length (endorsements s). pairOf (endorsements s ! j) = pairOf en
            \<and> (\<forall>k<j. pairOf (endorsements s ! k) \<noteq> pairOf en)
            \<and> (if Round (ConsensusVote (endorsements s ! j)) < Round (ConsensusVote en)
                then AddEndorsement_loop en (Suc i) s = (None, s\<lparr>endorsements := (endorsements s)[j := en]\<rparr>)
                else AddEndorsement_loop en (Suc i) s = (Some ErrExpiredEndorsement, s)))"
      proof
        assume a: "Endorser (endorsements s ! i) \<noteq> Endorser en"
        show ?thesis using "1.IH"(1)[OF True refl a p] True by simp
      next
        assume b: "Topic (ConsensusVote (endorsements s ! i)) \<noteq> Topic (ConsensusVote en)"
        show ?thesis
        proof (cases "Endorser (endorsements s ! i) \<noteq> Endorser en")
          case a: True
          show ?thesis using "1.IH"(1)[OF True refl a p] True by simp
        next
          case False
          show ?thesis using "1.IH"(2)[OF True refl False b p] True by simp
        qed
      qed
      show ?thesis unfolding step by (rule ih)
    qed
  qed
qed

lemma retained_filter: "retained a tp s = filter (\<lambda>e. pairOf e = (a, tp)) (endorsements s)"
  by (simp add: retained_def samePair_pairOf[abs_def])

lemma filter_other_parts:
  assumes "distinct (map pairOf xs)" "j < length xs"
  shows "filter (\<lambda>e. pairOf e = pairOf (xs ! j)) (take j xs) = []"
    "filter (\<lambda>e. pairOf e = pairOf (xs ! j)) (drop (Suc j) xs) = []"
proof -
  have "\<forall>k<length xs. k \<noteq> j \<longrightarrow> pairOf (xs ! k) \<noteq> pairOf (xs ! j)"
    using assms by (metis distinct_conv_nth length_map nth_map)
  then show "filter (\<lambda>e. pairOf e = pairOf (xs ! j)) (take j xs) = []"
    "filter (\<lambda>e. pairOf e = pairOf (xs ! j)) (drop (Suc j) xs) = []"
    using assms(2) by (auto simp: filter_empty_conv in_set_conv_nth)
qed

lemma filter_split_at:
  assumes "j < length xs"
  shows "filter P xs = filter P (take j xs) @ (if P (xs ! j) then [xs ! j] else []) @ filter P (drop (Suc j) xs)"
    "filter P (xs[j := y]) = filter P (take j xs) @ (if P y then [y] else []) @ filter P (drop (Suc j) xs)"
proof -
  have "xs = take j xs @ xs ! j # drop (Suc j) xs" using assms by (rule id_take_nth_drop)
  then have "filter P xs = filter P (take j xs @ xs ! j # drop (Suc j) xs)" by simp
  then show "filter P xs = filter P (take j xs) @ (if P (xs ! j) then [xs ! j] else []) @ filter P (drop (Suc j) xs)"
    by simp
  have "xs[j := y] = take j xs @ y # drop (Suc j) xs" using assms by (rule upd_conv_take_nth_drop)
  then show "filter P (xs[j := y]) = filter P (take j xs) @ (if P y then [y] else []) @ filter P (drop (Suc j) xs)"
    by simp
qed

lemma AddEndorsement_cases:
  "(AddEndorsement V en s = (Some ErrInvalidHash, s) \<and> BlkHash (ConsensusVote en) \<noteq> blkHash s)
   \<or> (AddEndorsement V en s = (Some ErrInvalidEndorsement, s) \<and> BlkHash (ConsensusVote en) = blkHash s \<and> \<not> V en)
   \<or> (BlkHash (ConsensusVote en) = blkHash s \<and> V en \<and>
       ((AddEndorsement V en s = (None, s\<lparr>endorsements := endorsements s @ [en]\<rparr>)
            \<and> (\<forall>e \<in> set (endorsements s). pairOf e \<noteq> pairOf en))
       \<or> (\<exists>j<length (endorsements s). pairOf (endorsements s ! j) = pairOf en
            \<and> (\<forall>k<j. pairOf (endorsements s ! k) \<noteq> pairOf en)
            \<and> (if roundOf (endorsements s ! j) < roundOf en
                then AddEndorsement V en s = (None, s\<lparr>endorsements := (endorsements s)[j := en]\<rparr>)
                else AddEndorsement V en s = (Some ErrExpiredEndorsement, s)))))"
proof (cases "BlkHash (ConsensusVote en) \<noteq> blkHash s")
  case True
  then show ?thesis by (simp add: AddEndorsement_def)
next
  case h: False
  show ?thesis
  proof (cases "V en")
    case False
    then show ?thesis using h by (simp add: AddEndorsement_def)
  next
    case True
    have e: "AddEndorsement V en s = AddEndorsement_loop en 0 s"
      using h True by (simp add: AddEndorsement_def)
    have "BlkHash (ConsensusVote en) = blkHash s \<and> V en" using h True by simp
    then show ?thesis
      using loop_cases[of 0 s en] unfolding e roundOf_def by blast
  qed
qed

lemma tracksD:
  assumes "tracks s rs"
  shows "rs a tp = [] \<Longrightarrow> retained a tp s = []"
    "rs a tp \<noteq> [] \<Longrightarrow> map roundOf (retained a tp s) = [Max (set (rs a tp))]"
    "retained a tp s = [] \<Longrightarrow> rs a tp = []"
    "retained a tp s \<noteq> [] \<Longrightarrow> rs a tp \<noteq> []"
proof -
  have *: "(rs a tp = [] \<longrightarrow> retained a tp s = []) \<and>
      (rs a tp \<noteq> [] \<longrightarrow> map roundOf (retained a tp s) = [Max (set (rs a tp))])"
    using assms unfolding tracks_def by blast
  show "rs a tp = [] \<Longrightarrow> retained a tp s = []" using * by simp
  show "rs a tp \<noteq> [] \<Longrightarrow> map roundOf (retained a tp s) = [Max (set (rs a tp))]" using * by simp
  show "retained a tp s = [] \<Longrightarrow> rs a tp = []" using * by auto
  show "retained a tp s \<noteq> [] \<Longrightarrow> rs a tp \<noteq> []" using * by auto
qed


lemma AddEndorsement_step:
  assumes u: "onePerPair s" and t: "tracks s rs" and r: "AddEndorsement V en s = (err, s1)"
  shows "onePerPair s1 \<and> tracks s1 (record_add en err rs)"
proof -
  let ?xs = "endorsements s"
  let ?p = "pairOf en"
  have same: "err \<noteq> None \<Longrightarrow> s1 = s \<Longrightarrow> ?thesis"
    using u t by (auto simp: tracks_def record_add_def addedRounds_def)
  consider
    (bad) "err \<noteq> None" "s1 = s"
    | (app) "err = None" "s1 = s\<lparr>endorsements := ?xs @ [en]\<rparr>" "\<forall>e \<in> set ?xs. pairOf e \<noteq> ?p"
    | (upd) j where "err = None" "s1 = s\<lparr>endorsements := ?xs[j := en]\<rparr>" "j < length ?xs"
        "pairOf (?xs ! j) = ?p" "roundOf (?xs ! j) < roundOf en"
    using AddEndorsement_cases[of V en s] r by (auto split: if_splits)
  then show ?thesis
  proof cases
    case bad
    then show ?thesis by (rule same)
  next
    case app
    have d: "onePerPair s1" using u app by (auto simp: onePerPair_def)
    have "tracks s1 (record_add en err rs)"
      unfolding tracks_def
    proof (intro allI)
      fix a tp
      show "(record_add en err rs a tp = [] \<longrightarrow> retained a tp s1 = []) \<and>
            (record_add en err rs a tp \<noteq> [] \<longrightarrow>
               map roundOf (retained a tp s1) = [Max (set (record_add en err rs a tp))])"
      proof (cases "?p = (a, tp)")
        case True
        then have "retained a tp s = []"
          using app(3) by (auto simp: retained_filter filter_empty_conv)
        then have "rs a tp = []" by (rule tracksD(3)[OF t])
        then show ?thesis
          using True app \<open>retained a tp s = []\<close>
          by (simp add: retained_filter record_add_def addedRounds_def samePair_pairOf roundOf_def)
      next
        case False
        then have "retained a tp s1 = retained a tp s"
          using app by (auto simp: retained_filter)
        then show ?thesis
          using tracksD(1,2)[OF t, of a tp] False
          by (simp add: record_add_def addedRounds_def samePair_pairOf)
      qed
    qed
    then show ?thesis using d by simp
  next
    case upd
    have m: "map pairOf (?xs[j := en]) = map pairOf ?xs"
      using upd by (simp add: map_update list_update_same_conv)
    have d: "onePerPair s1" using u upd m by (simp add: onePerPair_def)
    have dist: "distinct (map pairOf ?xs)" using u by (simp add: onePerPair_def)
    have "tracks s1 (record_add en err rs)"
      unfolding tracks_def
    proof (intro allI)
      fix a tp
      show "(record_add en err rs a tp = [] \<longrightarrow> retained a tp s1 = []) \<and>
            (record_add en err rs a tp \<noteq> [] \<longrightarrow>
               map roundOf (retained a tp s1) = [Max (set (record_add en err rs a tp))])"
      proof (cases "?p = (a, tp)")
        case True
        have o: "filter (\<lambda>e. pairOf e = (a, tp)) (take j ?xs) = []"
          "filter (\<lambda>e. pairOf e = (a, tp)) (drop (Suc j) ?xs) = []"
          using filter_other_parts[OF dist upd(3)] upd(4) True by simp_all
        have old: "retained a tp s = [?xs ! j]"
          using filter_split_at(1)[OF upd(3), of "\<lambda>e. pairOf e = (a, tp)"] o upd(4) True
          by (simp add: retained_filter)
        have new: "retained a tp s1 = [en]"
          using filter_split_at(2)[OF upd(3), of "\<lambda>e. pairOf e = (a, tp)" en] o True upd(2)
          by (simp add: retained_filter)
        have ne: "rs a tp \<noteq> []" using tracksD(4)[OF t, of a tp] old by simp
        then have mx: "Max (set (rs a tp)) = roundOf (?xs ! j)"
          using tracksD(2)[OF t, of a tp] old by simp
        have "max (roundOf en) (Max (set (rs a tp))) = roundOf en"
          using mx upd(5) by (simp add: max_absorb1 less_imp_le)
        then have "Max (set (rs a tp @ [roundOf en])) = roundOf en"
          using ne by simp
        then show ?thesis
          using True upd new
          by (simp add: record_add_def addedRounds_def samePair_pairOf roundOf_def)
      next
        case False
        then have n: "pairOf (?xs ! j) \<noteq> (a, tp)" "pairOf en \<noteq> (a, tp)" using upd(4) by auto
        have "retained a tp s1 = retained a tp s"
          using filter_split_at[OF upd(3), of "\<lambda>e. pairOf e = (a, tp)"] n upd(2)
          by (simp add: retained_filter)
        then show ?thesis
          using tracksD(1,2)[OF t, of a tp] False
          by (simp add: record_add_def addedRounds_def samePair_pairOf)
      qed
    qed
    then show ?thesis using d by simp
  qed
qed

lemma addedRounds_Cons:
  "addedRounds a tp (x # log) = addedRounds a tp [x] @ addedRounds a tp log"
  by (simp add: addedRounds_def)

lemma addAll_tracks:
  "onePerPair s0 \<Longrightarrow> tracks s0 rs \<Longrightarrow> addAll V ens s0 = (s, log)
     \<Longrightarrow> onePerPair s \<and> tracks s (\<lambda>a tp. rs a tp @ addedRounds a tp log)"
proof (induction ens arbitrary: s0 rs s log)
  case Nil
  then show ?case by (simp add: addedRounds_def)
next
  case (Cons en ens)
  obtain err s1 where a: "AddEndorsement V en s0 = (err, s1)" by (cases "AddEndorsement V en s0")
  obtain s2 log' where b: "addAll V ens s1 = (s2, log')" by (cases "addAll V ens s1")
  have e: "s = s2" "log = (en, err) # log'" using Cons.prems(3) a b by simp_all
  have st: "onePerPair s1" "tracks s1 (record_add en err rs)"
    using AddEndorsement_step[OF Cons.prems(1,2) a] by simp_all
  have "onePerPair s2 \<and> tracks s2 (\<lambda>a tp. record_add en err rs a tp @ addedRounds a tp log')"
    by (rule Cons.IH[OF st b])
  then show ?case
    unfolding e by (simp add: record_add_def addedRounds_Cons[of _ _ "(en, err)" log'])
qed

lemma NewSet_tracks: "onePerPair (NewSet h)" "tracks (NewSet h) (\<lambda>a tp. [])"
  by (simp_all add: onePerPair_def tracks_def NewSet_def retained_def)

text \<open>
  C2. After any sequence of \<open>AddEndorsement\<close> calls on a set created by \<open>NewSet\<close>,
  the set retains at most one endorsement for every pair of endorser and topic; it
  retains none when no call for the pair returned without error, and otherwise the
  retained endorsement's round is the maximum round of the calls for the pair that
  returned no error.
\<close>

theorem retained_round_is_max:
  assumes "addAll V ens (NewSet h) = (s, log)"
  shows "length (retained a tp s) \<le> 1 \<and>
         (addedRounds a tp log = [] \<longrightarrow> retained a tp s = []) \<and>
         (addedRounds a tp log \<noteq> [] \<longrightarrow>
            map (\<lambda>e. Round (ConsensusVote e)) (retained a tp s) = [Max (set (addedRounds a tp log))])"
proof -
  have t: "tracks s (\<lambda>a tp. addedRounds a tp log)"
    using addAll_tracks[OF NewSet_tracks assms] by simp
  have r: "roundOf = (\<lambda>e. Round (ConsensusVote e))" by (auto simp: roundOf_def)
  have 1: "addedRounds a tp log = [] \<longrightarrow> retained a tp s = []"
    using tracksD(1)[OF t, of a tp] by simp
  have 2: "addedRounds a tp log \<noteq> [] \<longrightarrow>
            map (\<lambda>e. Round (ConsensusVote e)) (retained a tp s) = [Max (set (addedRounds a tp log))]"
    using tracksD(2)[OF t, of a tp] by (simp add: r)
  have "length (map (\<lambda>e. Round (ConsensusVote e)) (retained a tp s)) \<le> 1"
    using 1 2 by (cases "addedRounds a tp log = []") simp_all
  then show ?thesis using 1 2 by simp
qed

lemmas endorse_eval = AddEndorsement_def AddEndorsement_loop.simps NewSet_def vote_def Endorser_def
  retained_def addedRounds_def samePair_def Let_def

lemma s4_result: "addAll (\<lambda>_. True) s4_calls (NewSet ''AA'') = (s4_set, s4_log)"
  by (simp add: s4_calls_def s4_set_def s4_log_def endorse_eval)

text \<open>
  C2 on the example history: for \<open>(A, LOCK)\<close> the rounds 1 and 2 were added and round
  2 is retained; nothing was added for \<open>(A, COMMIT)\<close>.
\<close>

theorem retained_round_is_max_witness:
  "addAll (\<lambda>_. True) s4_calls (NewSet ''AA'') = (s4_set, s4_log) \<and>
   addedRounds ''A'' LOCK s4_log = [1, 2] \<and>
   map (\<lambda>e. Round (ConsensusVote e)) (retained ''A'' LOCK s4_set) = [2] \<and>
   addedRounds ''A'' COMMIT s4_log = [] \<and> retained ''A'' COMMIT s4_set = []"
proof -
  have a: "addedRounds ''A'' LOCK s4_log = [1, 2]" "addedRounds ''A'' COMMIT s4_log = []"
    by (simp_all add: s4_log_def endorse_eval)
  show ?thesis
    using retained_round_is_max[OF s4_result, of "''A''" LOCK]
      retained_round_is_max[OF s4_result, of "''A''" COMMIT] s4_result
    by (simp add: a)
qed






section \<open>Properties of the sync worker\<close>

text \<open>
  On a non-negative index Go's remainder is the mathematical one, so the index stays
  within the peer list and the loop never panics.
\<close>

lemma smod_nonneg: "0 \<le> a \<Longrightarrow> 0 < b \<Longrightarrow> (a::int) smod b = a mod b"
  by (cases "a = 0") (simp_all add: smod_int_alt_def)

lemma Sync_loop_round_robin:
  assumes "peers \<noteq> []" "0 \<le> rrIdx w"
  shows "unicasts (snd (Sync_loop E peers ivs w)) =
           map (\<lambda>j. (peers ! ((nat (rrIdx w) + j) mod length peers),
                      BlockSync (Start (ivs ! j)) (End (ivs ! j)))) [0..<length ivs]
         \<and> 0 \<le> rrIdx (fst (Sync_loop E peers ivs w))
         \<and> SyncPanic \<notin> set (snd (Sync_loop E peers ivs w))
         \<and> targetHeight (fst (Sync_loop E peers ivs w)) = targetHeight w
         \<and> chainID (fst (Sync_loop E peers ivs w)) = chainID w"
  using assms(2)
proof (induction ivs arbitrary: w)
  case Nil
  then show ?case by simp
next
  case (Cons iv ivs)
  let ?n = "length peers"
  let ?i = "rrIdx w smod int ?n"
  have n: "0 < int ?n" using assms(1) by simp
  have i: "?i = rrIdx w mod int ?n" using Cons.prems n by (simp add: smod_nonneg)
  have r: "0 \<le> ?i" "?i < int ?n" using n by (simp_all add: i)
  have nat_i: "nat ?i = nat (rrIdx w) mod ?n"
    using Cons.prems by (simp add: i nat_mod_distrib)
  let ?w2 = "w\<lparr>rrIdx := ?i + 1\<rparr>"
  have ix: "index_at peers ?i = Some (peers ! nat ?i)" using r by (simp add: index_at_def)
  obtain w3 more where l: "Sync_loop E peers ivs ?w2 = (w3, more)"
    by (cases "Sync_loop E peers ivs ?w2")
  have ih: "unicasts more =
           map (\<lambda>j. (peers ! ((nat (?i + 1) + j) mod ?n),
                      BlockSync (Start (ivs ! j)) (End (ivs ! j)))) [0..<length ivs]"
    "0 \<le> rrIdx w3" "SyncPanic \<notin> set more" "targetHeight w3 = targetHeight w" "chainID w3 = chainID w"
    using Cons.IH[of ?w2] r l by simp_all
  have m: "(nat (?i + 1) + j) mod ?n = (nat (rrIdx w) + Suc j) mod ?n" for j
  proof -
    have "nat (?i + 1) + j = nat (rrIdx w) mod ?n + Suc j" using r nat_i by simp
    then have "(nat (?i + 1) + j) mod ?n = (nat (rrIdx w) mod ?n + Suc j) mod ?n" by (rule arg_cong)
    also have "\<dots> = (nat (rrIdx w) + Suc j) mod ?n" by (rule mod_add_left_eq)
    finally show ?thesis .
  qed
  have u: "unicasts (xs @ ys) = unicasts xs @ unicasts ys" for xs ys
    by (induction xs rule: unicasts.induct) simp_all
  have e: "Sync_loop E peers (iv # ivs) w =
      (w3, (Unicast (peers ! nat ?i) (BlockSync (Start iv) (End iv)) #
            (if unicastHandler E (peers ! nat ?i) (BlockSync (Start iv) (End iv))
             then [SyncLog Warn ''Failed to sync block.''] else [])) @ more)"
    using ix l by (simp add: Let_def)
  have "unicasts (snd (Sync_loop E peers (iv # ivs) w)) =
      (peers ! (nat (rrIdx w) mod ?n), BlockSync (Start iv) (End iv)) #
      map (\<lambda>j. (peers ! ((nat (rrIdx w) + Suc j) mod ?n),
                      BlockSync (Start (ivs ! j)) (End (ivs ! j)))) [0..<length ivs]"
    unfolding e by (simp add: u ih(1) m nat_i)
  also have "\<dots> = map (\<lambda>j. (peers ! ((nat (rrIdx w) + j) mod ?n),
                      BlockSync (Start ((iv # ivs) ! j)) (End ((iv # ivs) ! j)))) [0..<length (iv # ivs)]"
    by (simp add: map_upt_Suc del: upt_Suc)
  finally show ?case using ih unfolding e by simp
qed

lemma Sync_rrIdx_nonneg: "0 \<le> rrIdx w \<Longrightarrow> 0 \<le> rrIdx (fst (Sync E w))"
  using Sync_loop_round_robin[of "neighborsHandler E" w E "GetBlocksIntervalsToSync E (targetHeight w)"]
  by (auto simp: Sync_def Let_def split: prod.splits)

lemma workerRun_rrIdx_nonneg: "0 \<le> rrIdx w \<Longrightarrow> 0 \<le> rrIdx (workerRun cs w)"
  by (induction cs w rule: workerRun.induct) (simp_all add: Sync_rrIdx_nonneg SetTargetHeight_def)

text \<open>
  C8. Let the worker be in any state reached from \<open>newSyncWorker\<close> by ticks and
  target-height updates, with round-robin index \<open>i\<close>. A tick with the non-empty
  peer list \<open>P\<close> sends exactly one unicast request per interval the buffer returns,
  in interval order, and the \<open>j\<close>-th request carries the \<open>j\<close>-th interval's
  \<open>Start\<close> and \<open>End\<close> and goes to \<open>P[(i + j) mod |P|]\<close>. With an empty peer list
  the tick sends nothing. The index is never negative and the tick does not panic.
\<close>

theorem Sync_round_robin:
  "let w = workerRun cs (newSyncWorker c);
       P = neighborsHandler E;
       ivs = GetBlocksIntervalsToSync E (targetHeight w);
       out = snd (Sync E w)
   in 0 \<le> rrIdx w \<and> SyncPanic \<notin> set out \<and>
      (P = [] \<longrightarrow> unicasts out = []) \<and>
      (P \<noteq> [] \<longrightarrow>
         unicasts out =
           map (\<lambda>j. (P ! ((nat (rrIdx w) + j) mod length P),
                      BlockSync (Start (ivs ! j)) (End (ivs ! j)))) [0..<length ivs])"
proof -
  let ?w = "workerRun cs (newSyncWorker c)"
  have z: "0 \<le> rrIdx ?w"
    by (rule workerRun_rrIdx_nonneg) (simp add: newSyncWorker_def)
  have u: "unicasts (xs @ ys) = unicasts xs @ unicasts ys" for xs ys
    by (induction xs rule: unicasts.induct) simp_all
  show ?thesis
  proof (cases "neighborsHandler E = []")
    case True
    then show ?thesis using z by (simp add: Sync_def Let_def)
  next
    case False
    show ?thesis
      using False z
        Sync_loop_round_robin[OF False z, of E "GetBlocksIntervalsToSync E (targetHeight ?w)"]
      by (auto simp: Sync_def Let_def u split: prod.splits)
  qed
qed

lemma s5_worker_eq: "s5_worker = \<lparr>chainID = 1, targetHeight = 20, rrIdx = 3\<rparr>"
  by (simp add: s5_worker_def s5_env_def newSyncWorker_def SetTargetHeight_def Sync_def
      index_at_def Let_def smod_int_alt_def)

text \<open>
  C8 on scenario S5 with index 3: the requests go to the peers at positions 3, 0 and 1.
\<close>

theorem Sync_round_robin_witness:
  "rrIdx s5_worker = 3 \<and>
   unicasts (snd (Sync s5_env s5_worker)) =
     [(''P1'', BlockSync 11 12), (''P1'', BlockSync 15 16), (''P2'', BlockSync 18 20)] \<and>
   unicasts (snd (Sync s5_no_peers s5_worker)) = []"
proof -
  have u: "[0..<3] = [0, 1, 2]" by (simp add: upt_rec)
  show ?thesis
    using Sync_round_robin[of "[Target 20, Tick s5_env]" 1 s5_env]
      Sync_round_robin[of "[Target 20, Tick s5_env]" 1 s5_no_peers]
    unfolding s5_worker_def[symmetric]
    by (simp add: Let_def s5_worker_eq s5_env_def s5_no_peers_def u)
qed

section \<open>Properties of the dispatcher\<close>


lemmas front_defs = observe_def enqueueEvent_def dispatchAction_def dispatchBlockCommit_def
  dispatchBlockSyncReq_def dispatchBlockSyncData_def HandleBroadcast_def HandleTell_def
  AddSubscriber_def IotxDispatcher_Start_def IotxDispatcher_Stop_def Let_def





lemma dropSender_last:
  "dropSender (length (senders d)) (d\<lparr>senders := senders d @ [x]\<rparr>) = d"
  by (simp add: dropSender_def)








text \<open>
  C5, as the code has it. With a subscriber registered for the chain, a consensus
  message makes \<open>HandleBroadcast\<close> call that subscriber's \<open>HandleConsensusMsg\<close> exactly
  once before it returns (followed by an error log line when the handler fails), and
  neither the queue nor the sender goroutines change. An action or block message is
  never handled synchronously: while the shutdown flag is zero it is handed to
  \<open>enqueueEvent\<close> as an action event or a new-block event, and once \<open>Stop\<close> has
  raised the flag it is discarded.
\<close>

theorem HandleBroadcast_routing:
  assumes "subscribers d c = Some sub"
  shows "trace (HandleBroadcast c (ConsensusPbMsg m) d) =
           trace d @ Invoke (subscriberId sub) (HandleConsensusMsg m) #
             (if fails sub (HandleConsensusMsg m)
              then [Logged Error ''Failed to handle block propose.''] else []) \<and>
         invocations (trace (HandleBroadcast c (ConsensusPbMsg m) d)) =
           invocations (trace d) @ [(subscriberId sub, HandleConsensusMsg m)] \<and>
         eventChan (HandleBroadcast c (ConsensusPbMsg m) d) = eventChan d \<and>
         senders (HandleBroadcast c (ConsensusPbMsg m) d) = senders d \<and>
         HandleBroadcast c (ActionPbMsg a) d =
           (if shutdown d = 0 then enqueueEvent (actionMsg c a) d else d) \<and>
         HandleBroadcast c (BlockPbMsg b) d =
           (if shutdown d = 0 then enqueueEvent (blockMsg c b MsgBlockProtoMsgType) d else d) \<and>
         trace (enqueueEvent ev d) = trace d \<and> eventChan (enqueueEvent ev d) = eventChan d"
proof -
  have i: "invocations (xs @ ys) = invocations xs @ invocations ys" for xs ys
    by (induction xs rule: invocations.induct) simp_all
  show ?thesis using assms by (simp add: front_defs i)
qed

text \<open>
  C5 as stated does not hold: after \<open>Stop\<close>, an action or block broadcast for a
  registered chain is not enqueued. \<open>HandleBroadcast\<close> returns the dispatcher as it
  was, with nothing in the queue and no goroutine that could put the event there.
\<close>

theorem HandleBroadcast_after_Stop:
  "dsteps [CallAddSubscriber 7 sub1, CallStop] (NewDispatcher 2) = Some stopped_dispatcher \<and>
   subscribers stopped_dispatcher 7 = Some sub1 \<and>
   HandleBroadcast 7 (ActionPbMsg ''a1'') stopped_dispatcher = stopped_dispatcher \<and>
   HandleBroadcast 7 (BlockPbMsg ''b1'') stopped_dispatcher = stopped_dispatcher \<and>
   eventChan stopped_dispatcher = [] \<and> senders stopped_dispatcher = []"
  by (simp add: stopped_dispatcher_def front_defs NewDispatcher_def)

text \<open>
  C5 on the dispatcher of scenario S2 and on the stopped dispatcher.
\<close>

theorem HandleBroadcast_routing_witness:
  "subscribers s2_full 7 = Some sub1 \<and>
   trace (HandleBroadcast 7 (ConsensusPbMsg ''m'') s2_full) = [Invoke 1 (HandleConsensusMsg ''m'')] \<and>
   eventChan (HandleBroadcast 7 (ConsensusPbMsg ''m'') s2_full) = eventChan s2_full \<and>
   senders (HandleBroadcast 7 (ConsensusPbMsg ''m'') s2_full) = [] \<and>
   senders (HandleBroadcast 7 (ActionPbMsg ''a3'') s2_full) = [(AtCheck, actionMsg 7 ''a3'')] \<and>
   trace (HandleBroadcast 7 (ActionPbMsg ''a3'') s2_full) = [] \<and>
   subscribers stopped_dispatcher 7 = Some sub1 \<and>
   HandleBroadcast 7 (ActionPbMsg ''a1'') stopped_dispatcher = stopped_dispatcher"
proof -
  have a: "subscribers s2_full 7 = Some sub1" by (simp add: s2_full_def)
  have b: "subscribers stopped_dispatcher 7 = Some sub1" "shutdown stopped_dispatcher = 1"
    by (simp_all add: stopped_dispatcher_def front_defs NewDispatcher_def)
  have c: "trace s2_full = []" "senders s2_full = []" "shutdown s2_full = 0"
    "subscriberId sub1 = 1" "\<not> fails sub1 x" for x
    by (simp_all add: s2_full_def sub1_def)
  show ?thesis
    using HandleBroadcast_routing[OF a, of "''m''" "''a3''" "''b''" "actionMsg 7 ''a3''"]
      HandleBroadcast_routing[OF b(1), of "''m''" "''a1''" "''b''" "actionMsg 7 ''a3''"] a b
    by (simp add: c enqueueEvent_def)
qed






end
